theory Spec2Isabelle
  imports Main "HOL-Library.Char_ord" "HOL-Library.List_Lexorder" "HOL-Library.Multiset"
begin

section \<open>Values, messages and errors\<close>

text \<open>
  The SDK works on parsed JSON: the result of \<^verbatim>\<open>r.json()\<close> and of
  \<^verbatim>\<open>json.loads(r.text)\<close>. A mapping is an association list in insertion order
  (a parsed mapping has distinct keys; a lookup takes the first binding). A string is its
  sequence of characters, taken as ASCII. JSON numbers with a fractional part are not
  modelled.
\<close>

datatype json =
    JNull
  | JBool bool
  | JInt int
  | JStr string
  | JList "json list"
  | JDict "(string \<times> json) list"

text \<open>
  An f-string is kept as its parts: \<open>Lit s\<close> is literal text and \<open>Fmt v\<close> is the
  replacement field \<^verbatim>\<open>{v}\<close>, that is \<^verbatim>\<open>str(v)\<close> (for a string \<open>v\<close>, the string itself).
\<close>

datatype fpart = Lit string | Fmt json

type_synonym message = "fpart list"

text \<open>
  The exceptions that leave the functions of \<^verbatim>\<open>api.py\<close>. \<open>RequestException\<close> is whatever
  the HTTP library raises when no response arrives.
\<close>

datatype error =
    ConnectionError message
  | TimeoutError message
  | FileNotFoundError message
  | AssertionError message
  | UnboundLocalError
  | JSONDecodeError
  | KeyError
  | TypeError
  | AttributeError
  | RequestException

datatype log_entry = Info message | Warning message | Exception message

section \<open>Responses, sessions and the world\<close>

text \<open>
  A response: \<open>json_body\<close> is the parse of its text (\<open>None\<close> when the text is not JSON),
  \<open>content_type\<close> is \<^verbatim>\<open>r.headers.get('content-type')\<close> (\<open>None\<close> when the header is absent)
  and \<open>content\<close> the raw bytes.
\<close>

record response =
  status_code :: int
  json_body :: "json option"
  content_type :: "string option"
  content :: string

datatype request = GET json | POST json json | DELETE json json

datatype outcome = Responds response | Raises

text \<open>
  A session answers a request from the requests made before it (oldest first): any
  deterministic server is such a function. The URL is whatever value the code passes.
\<close>

type_synonym session = "request list \<Rightarrow> request \<Rightarrow> outcome"

text \<open>
  The world records what a call does: the requests sent, the log entries written and the
  sleeps taken, each in its order, and in \<open>events\<close> all of them in the one order in which
  they happened.
\<close>

datatype event = Sent request | Logged log_entry | Slept nat

record world =
  requested :: "request list"
  logged :: "log_entry list"
  slept :: "nat list"
  events :: "event list"

definition send :: "session \<Rightarrow> request \<Rightarrow> world \<Rightarrow> outcome \<times> world" where
  "send session rq w =
     (session (requested w) rq,
      w\<lparr>requested := requested w @ [rq], events := events w @ [Sent rq]\<rparr>)"

definition logger :: "log_entry \<Rightarrow> world \<Rightarrow> world" where
  "logger e w = w\<lparr>logged := logged w @ [e], events := events w @ [Logged e]\<rparr>"

definition sleep :: "nat \<Rightarrow> world \<Rightarrow> world" where
  "sleep n w = w\<lparr>slept := slept w @ [n], events := events w @ [Slept n]\<rparr>"

text \<open>
  \<^verbatim>\<open>Response.raise_for_status\<close> of the HTTP library raises for the client and server
  error statuses, 400 to 599, and for no other.
\<close>

definition raise_for_status :: "response \<Rightarrow> bool" where
  "raise_for_status r \<longleftrightarrow> 400 \<le> status_code r \<and> status_code r < 600"

section \<open>Python operations on parsed JSON\<close>

text \<open>\<^verbatim>\<open>x[key]\<close> for a string key: only a mapping accepts it.\<close>

fun subscript :: "json \<Rightarrow> string \<Rightarrow> error + json" where
  "subscript (JDict kvs) k = (case map_of kvs k of None \<Rightarrow> Inl KeyError | Some v \<Rightarrow> Inr v)"
| "subscript _ k = Inl TypeError"

text \<open>\<^verbatim>\<open>json.loads(r.text)["detail"]\<close>\<close>

definition detail :: "response \<Rightarrow> error + json" where
  "detail r = (case json_body r of None \<Rightarrow> Inl JSONDecodeError | Some d \<Rightarrow> subscript d ''detail'')"

text \<open>
  The truth value of a value, as \<^verbatim>\<open>if v:\<close> and \<^verbatim>\<open>not v\<close> take it.
\<close>

fun truthy :: "json \<Rightarrow> bool" where
  "truthy JNull = False"
| "truthy (JBool b) = b"
| "truthy (JInt n) = (n \<noteq> 0)"
| "truthy (JStr s) = (s \<noteq> [])"
| "truthy (JList xs) = (xs \<noteq> [])"
| "truthy (JDict kvs) = (kvs \<noteq> [])"

text \<open>
  Booleans are integers in Python (\<^verbatim>\<open>True == 1\<close>): the integer of a value that is a number.
\<close>

fun number :: "json \<Rightarrow> int option" where
  "number (JBool b) = Some (if b then 1 else 0)"
| "number (JInt n) = Some n"
| "number _ = None"

text \<open>
  The congruence rule that lets \<open>py_eq\<close> recurse through \<open>list_all2\<close>.
\<close>

lemma list_all2_cong [fundef_cong]:
  "xs = xs' \<Longrightarrow> ys = ys' \<Longrightarrow> (\<And>x y. x \<in> set xs' \<Longrightarrow> y \<in> set ys' \<Longrightarrow> P x y = Q x y)
   \<Longrightarrow> list_all2 P xs ys = list_all2 Q xs' ys'"
  by (rule list.rel_cong) auto

text \<open>
  \<^verbatim>\<open>a == b\<close> on parsed JSON: numbers by value, strings by content, sequences element by
  element, mappings key by key whatever the order of their entries. It never raises.
\<close>

fun py_eq :: "json \<Rightarrow> json \<Rightarrow> bool" where
  "py_eq JNull b = (b = JNull)"
| "py_eq (JBool x) b = (number b = Some (if x then 1 else 0))"
| "py_eq (JInt x) b = (number b = Some x)"
| "py_eq (JStr s) b = (b = JStr s)"
| "py_eq (JList xs) b = (case b of JList ys \<Rightarrow> list_all2 py_eq xs ys | _ \<Rightarrow> False)"
| "py_eq (JDict kvs) b =
     (case b of
        JDict kvs' \<Rightarrow>
          list_all (\<lambda>k. map_of kvs k \<noteq> None) (map fst kvs') \<and>
          list_all (\<lambda>(k, v). map_of kvs k = Some v \<longrightarrow>
                      (case map_of kvs' k of None \<Rightarrow> False | Some v' \<Rightarrow> py_eq v v')) kvs
      | _ \<Rightarrow> False)"

text \<open>
  \<^verbatim>\<open>a < b\<close>: defined between two numbers, between two strings, and between two sequences,
  where the elements at the first position that are not \<^verbatim>\<open>==\<close> decide and a proper prefix is
  smaller (tuples compare as sequences do). Every other comparison raises \<open>TypeError\<close>.
\<close>

fun py_lt :: "json \<Rightarrow> json \<Rightarrow> error + bool"
  and py_lt_list :: "json list \<Rightarrow> json list \<Rightarrow> error + bool" where
  "py_lt JNull b = Inl TypeError"
| "py_lt (JBool x) b = (case number b of Some n \<Rightarrow> Inr ((if x then 1 else 0) < n) | None \<Rightarrow> Inl TypeError)"
| "py_lt (JInt m) b = (case number b of Some n \<Rightarrow> Inr (m < n) | None \<Rightarrow> Inl TypeError)"
| "py_lt (JStr s) b = (case b of JStr t \<Rightarrow> Inr (s < t) | _ \<Rightarrow> Inl TypeError)"
| "py_lt (JList xs) b = (case b of JList ys \<Rightarrow> py_lt_list xs ys | _ \<Rightarrow> Inl TypeError)"
| "py_lt (JDict kvs) b = Inl TypeError"
| "py_lt_list [] ys = Inr (ys \<noteq> [])"
| "py_lt_list (x # xs) [] = Inr False"
| "py_lt_list (x # xs) (y # ys) = (if py_eq x y then py_lt_list xs ys else py_lt x y)"

text \<open>
  The entry of a mapping: \<^verbatim>\<open>isinstance(data, dict) and k in data.keys()\<close> is
  \<open>dict_get data k \<noteq> None\<close>.
\<close>

fun dict_get :: "json \<Rightarrow> string \<Rightarrow> json option" where
  "dict_get (JDict kvs) k = map_of kvs k"
| "dict_get _ k = None"

text \<open>
  Iterating a value, as a comprehension, \<^verbatim>\<open>sorted\<close> and \<^verbatim>\<open>+=\<close> on a list do: a sequence
  gives its elements, a string its characters, a mapping its keys; nothing else is iterable.
\<close>

fun py_iter :: "json \<Rightarrow> error + json list" where
  "py_iter (JList xs) = Inr xs"
| "py_iter (JStr s) = Inr (map (\<lambda>c. JStr [c]) s)"
| "py_iter (JDict kvs) = Inr (map (\<lambda>kv. JStr (fst kv)) kvs)"
| "py_iter _ = Inl TypeError"

text \<open>
  \<^verbatim>\<open>x.get(k)\<close>, a method of mappings only.
\<close>

fun py_get :: "json \<Rightarrow> string \<Rightarrow> error + json" where
  "py_get (JDict kvs) k = Inr (case map_of kvs k of None \<Rightarrow> JNull | Some v \<Rightarrow> v)"
| "py_get _ k = Inl AttributeError"

text \<open>
  \<^verbatim>\<open>v in xs\<close> compares \<open>v\<close> with the elements by \<^verbatim>\<open>==\<close>.
\<close>

definition py_in :: "json \<Rightarrow> json list \<Rightarrow> bool" where
  "py_in v xs = list_ex (\<lambda>x. py_eq x v) xs"

text \<open>
  A comprehension evaluates its elements in order and stops at the first that raises.
\<close>

fun map_err :: "('a \<Rightarrow> error + 'b) \<Rightarrow> 'a list \<Rightarrow> error + 'b list" where
  "map_err f [] = Inr []"
| "map_err f (x # xs) =
     (case f x of
        Inl e \<Rightarrow> Inl e
      | Inr y \<Rightarrow> (case map_err f xs of Inl e \<Rightarrow> Inl e | Inr ys \<Rightarrow> Inr (y # ys)))"

fun filter_err :: "('a \<Rightarrow> error + bool) \<Rightarrow> 'a list \<Rightarrow> error + 'a list" where
  "filter_err p [] = Inr []"
| "filter_err p (x # xs) =
     (case p x of
        Inl e \<Rightarrow> Inl e
      | Inr b \<Rightarrow> (case filter_err p xs of
                    Inl e \<Rightarrow> Inl e
                  | Inr ys \<Rightarrow> Inr (if b then x # ys else ys)))"

text \<open>
  \<^verbatim>\<open>sorted(xs, key=f)\<close> computes the keys of all elements first, then sorts stably,
  comparing keys by \<^verbatim>\<open><\<close> alone; a comparison that raises ends the sort. The model inserts
  the elements from left to right into the sorted prefix, each after the elements whose key
  is not greater: where no comparison raises, that is the stable sort. The library may compare
  other pairs of keys than the model; on keys that are all numbers or all strings neither
  raises, and on two or more keys that hold a null or mix numbers with strings both raise
  \<open>TypeError\<close>.
\<close>

fun insert_keyed :: "json \<times> 'a \<Rightarrow> (json \<times> 'a) list \<Rightarrow> error + (json \<times> 'a) list" where
  "insert_keyed x [] = Inr [x]"
| "insert_keyed x (y # ys) =
     (case py_lt (fst x) (fst y) of
        Inl e \<Rightarrow> Inl e
      | Inr True \<Rightarrow> Inr (x # y # ys)
      | Inr False \<Rightarrow> (case insert_keyed x ys of Inl e \<Rightarrow> Inl e | Inr zs \<Rightarrow> Inr (y # zs)))"

fun sort_keyed :: "(json \<times> 'a) list \<Rightarrow> (json \<times> 'a) list \<Rightarrow> error + (json \<times> 'a) list" where
  "sort_keyed done [] = Inr done"
| "sort_keyed done (x # xs) =
     (case insert_keyed x done of Inl e \<Rightarrow> Inl e | Inr done1 \<Rightarrow> sort_keyed done1 xs)"

definition sorted_py :: "('a \<Rightarrow> error + json) \<Rightarrow> 'a list \<Rightarrow> error + 'a list" where
  "sorted_py key xs =
     (case map_err (\<lambda>x. case key x of Inl e \<Rightarrow> Inl e | Inr k \<Rightarrow> Inr (k, x)) xs of
        Inl e \<Rightarrow> Inl e
      | Inr keyed \<Rightarrow> (case sort_keyed [] keyed of Inl e \<Rightarrow> Inl e | Inr s \<Rightarrow> Inr (map snd s)))"

section \<open>retry_get\<close>

text \<open>
  The body of \<^verbatim>\<open>except Exception:\<close>. \<open>r\<close> is the local variable \<^verbatim>\<open>r\<close>: \<open>None\<close> while it is
  unbound. The result is the exception raised, or the new retry count when the handler
  falls through to the next round of the loop.
\<close>

definition handler :: "json \<Rightarrow> nat \<Rightarrow> response option \<Rightarrow> world \<Rightarrow> (error + nat) \<times> world" where
  "handler url retry_count r w =
     (case r of
        None \<Rightarrow> (Inl UnboundLocalError, w)
      | Some x \<Rightarrow>
          if 401 \<le> status_code x \<and> status_code x \<le> 403 then
            (case detail x of
               Inl e \<Rightarrow> (Inl e, w)
             | Inr d \<Rightarrow> (Inl (ConnectionError [Lit ''Problem with credentials: '', Fmt d]), w))
          else if status_code x = 500 then
            (case detail x of
               Inl e \<Rightarrow> (Inl e, w)
             | Inr d \<Rightarrow> (Inl (TimeoutError [Lit ''Problem with server: '', Fmt d,
                                              Lit '' even after 10 retries'']), w))
          else
            (let w1 = logger (Warning [Lit ''Retry to get url >>'', Fmt url, Lit ''<<'']) w;
                 retry_count1 = retry_count + 1
             in if retry_count1 \<ge> 10 then
                  (case detail x of
                     Inl e \<Rightarrow> (Inl e, w1)
                   | Inr d \<Rightarrow> (Inl (TimeoutError [Lit ''Unknown issue even after 10 retries '',
                                                    Fmt d]), w1))
                else (Inr retry_count1, sleep 15 w1)))"

lemma handler_count:
  "handler url retry_count r w = (Inr n, w') \<Longrightarrow> n = retry_count + 1 \<and> n < 10"
  by (auto simp: handler_def Let_def split: option.splits if_splits sum.splits)

function retry_get_loop ::
  "session \<Rightarrow> json \<Rightarrow> nat \<Rightarrow> response option \<Rightarrow> world \<Rightarrow> (error + response) \<times> world" where
  "retry_get_loop session url retry_count r w =
     (case send session (GET url) w of
        (Responds x, w1) \<Rightarrow>
          if raise_for_status x then
            (case handler url retry_count (Some x) w1 of
               (Inl e, w2) \<Rightarrow> (Inl e, w2)
             | (Inr n, w2) \<Rightarrow> retry_get_loop session url n (Some x) w2)
          else (Inr x, w1)
      | (Raises, w1) \<Rightarrow>
          (case handler url retry_count r w1 of
             (Inl e, w2) \<Rightarrow> (Inl e, w2)
           | (Inr n, w2) \<Rightarrow> retry_get_loop session url n r w2))"
  by pat_completeness auto
termination
  by (relation "measure (\<lambda>(session, url, retry_count, r, w). 10 - retry_count)")
     (auto dest!: handler_count [OF sym])

declare retry_get_loop.simps [simp del]

definition retry_get :: "session \<Rightarrow> json \<Rightarrow> world \<Rightarrow> (error + response) \<times> world" where
  "retry_get session url w = retry_get_loop session url 0 None w"

section \<open>get_meta_of_files\<close>

text \<open>
  The \<^verbatim>\<open>while True\<close> loop of \<^verbatim>\<open>get_meta_of_files\<close>, returning the variable \<^verbatim>\<open>result\<close> it leaves.
  The loop follows \<^verbatim>\<open>next\<close> for as long as the server supplies one and need not end:
  \<open>fuel\<close> bounds the number of pages fetched and \<open>None\<close> says the bound was reached.
  The URL of the first page, \<^verbatim>\<open>get_documents_meta_url()\<close>, is a parameter.
\<close>

fun get_meta_loop ::
  "nat \<Rightarrow> session \<Rightarrow> json \<Rightarrow> json list \<Rightarrow> world \<Rightarrow> ((error + json) \<times> world) option" where
  "get_meta_loop 0 session url result w = None"
| "get_meta_loop (Suc fuel) session url result w =
     (case retry_get session url w of
        (Inl e, w1) \<Rightarrow> Some (Inl e, w1)
      | (Inr r, w1) \<Rightarrow>
          (case json_body r of
             None \<Rightarrow> Some (Inl JSONDecodeError, w1)
           | Some data \<Rightarrow>
               (case dict_get data ''results'' of
                  None \<Rightarrow> Some (Inr data, w1)
                | Some results \<Rightarrow>
                    (case py_iter results of
                       Inl e \<Rightarrow> Some (Inl e, w1)
                     | Inr items \<Rightarrow>
                         (case dict_get data ''next'' of
                            None \<Rightarrow> Some (Inr (JList (result @ items)), w1)
                          | Some nxt \<Rightarrow>
                              if truthy nxt
                              then get_meta_loop fuel session nxt (result @ items) w1
                              else Some (Inr (JList (result @ items)), w1))))))"

text \<open>
  \<^verbatim>\<open>x['dataset_status'] in [2, 3]\<close>
\<close>

definition dataset_document :: "json \<Rightarrow> error + bool" where
  "dataset_document x =
     (case subscript x ''dataset_status'' of
        Inl e \<Rightarrow> Inl e
      | Inr s \<Rightarrow> Inr (py_in s [JInt 2, JInt 3]))"

definition get_meta_of_files ::
  "nat \<Rightarrow> json \<Rightarrow> session \<Rightarrow> world \<Rightarrow> ((error + json list) \<times> world) option" where
  "get_meta_of_files fuel get_documents_meta_url session w =
     (case get_meta_loop fuel session get_documents_meta_url [] w of
        None \<Rightarrow> None
      | Some (Inl e, w1) \<Rightarrow> Some (Inl e, w1)
      | Some (Inr result, w1) \<Rightarrow>
          Some (case py_iter result of
                  Inl e \<Rightarrow> (Inl e, w1)
                | Inr documents \<Rightarrow>
                    (case sorted_py (\<lambda>x. subscript x ''id'') documents of
                       Inl e \<Rightarrow> (Inl e, w1)
                     | Inr sorted_documents \<Rightarrow>
                         (case filter_err dataset_document sorted_documents of
                            Inl e \<Rightarrow> (Inl e, w1)
                          | Inr sorted_dataset_documents \<Rightarrow> (Inr sorted_dataset_documents, w1)))))"

section \<open>Annotations of a document\<close>

text \<open>
  \<^verbatim>\<open>x['revised'] or x['is_correct'] or not x['id']\<close>
\<close>

definition revised_or_extraction :: "json \<Rightarrow> error + bool" where
  "revised_or_extraction x =
     (case subscript x ''revised'' of
        Inl e \<Rightarrow> Inl e
      | Inr revised \<Rightarrow>
          if truthy revised then Inr True
          else (case subscript x ''is_correct'' of
                  Inl e \<Rightarrow> Inl e
                | Inr is_correct \<Rightarrow>
                    if truthy is_correct then Inr True
                    else (case subscript x ''id'' of
                            Inl e \<Rightarrow> Inl e
                          | Inr i \<Rightarrow> Inr (\<not> truthy i))))"

text \<open>
  The sort key \<^verbatim>\<open>(x.get('start_offset') is None, x.get('start_offset'))\<close>, the pair kept as
  a two-element sequence.
\<close>

definition offset_key :: "json \<Rightarrow> error + json" where
  "offset_key x =
     (case py_get x ''start_offset'' of
        Inl e \<Rightarrow> Inl e
      | Inr v \<Rightarrow> Inr (JList [JBool (v = JNull), v]))"

text \<open>
  \<^verbatim>\<open>get_document_api_details_url\<close> is a parameter: it takes the document and the
  \<^verbatim>\<open>include_extractions\<close> argument as passed (\<open>None\<close> when the call leaves it out).
\<close>

definition get_document_annotations ::
  "(int \<Rightarrow> bool option \<Rightarrow> json) \<Rightarrow> int \<Rightarrow> bool \<Rightarrow> session \<Rightarrow> world
     \<Rightarrow> (error + json list) \<times> world" where
  "get_document_annotations get_document_api_details_url document_id include_extractions session w =
     (let url = get_document_api_details_url document_id (Some include_extractions)
      in case retry_get session url w of
           (Inl e, w1) \<Rightarrow> (Inl e, w1)
         | (Inr r, w1) \<Rightarrow>
             (case json_body r of
                None \<Rightarrow> (Inl JSONDecodeError, w1)
              | Some data \<Rightarrow>
                  (case subscript data ''annotations'' of
                     Inl e \<Rightarrow> (Inl e, w1)
                   | Inr annotations \<Rightarrow>
                       (case py_iter annotations of
                          Inl e \<Rightarrow> (Inl e, w1)
                        | Inr not_custom_annotations \<Rightarrow>
                            (case filter_err revised_or_extraction not_custom_annotations of
                               Inl e \<Rightarrow> (Inl e, w1)
                             | Inr revised_annotations_and_extractions \<Rightarrow>
                                 (case sorted_py offset_key revised_annotations_and_extractions of
                                    Inl e \<Rightarrow> (Inl e, w1)
                                  | Inr sorted_annotations \<Rightarrow>
                                      (Inr sorted_annotations,
                                       logger (Info [Lit ''Document with ID '', Fmt (JInt document_id),
                                                     Lit '' contains '',
                                                     Fmt (JInt (int (length sorted_annotations))),
                                                     Lit '' annotations.'']) w1)))))))"

text \<open>
  \<^verbatim>\<open>annotation['revised'] or annotation['is_correct']\<close>
\<close>

definition revised_annotation :: "json \<Rightarrow> error + bool" where
  "revised_annotation annotation =
     (case subscript annotation ''revised'' of
        Inl e \<Rightarrow> Inl e
      | Inr revised \<Rightarrow>
          if truthy revised then Inr True
          else (case subscript annotation ''is_correct'' of
                  Inl e \<Rightarrow> Inl e
                | Inr is_correct \<Rightarrow> Inr (truthy is_correct)))"

definition get_document_sections ::
  "(int \<Rightarrow> bool option \<Rightarrow> json) \<Rightarrow> int \<Rightarrow> session \<Rightarrow> world \<Rightarrow> (error + json list) \<times> world" where
  "get_document_sections get_document_api_details_url document_id session w =
     (let url = get_document_api_details_url document_id None
      in case retry_get session url w of
           (Inl e, w1) \<Rightarrow> (Inl e, w1)
         | (Inr r, w1) \<Rightarrow>
             (case json_body r of
                None \<Rightarrow> (Inl JSONDecodeError, w1)
              | Some data \<Rightarrow>
                  (case subscript data ''annotations'' of
                     Inl e \<Rightarrow> (Inl e, w1)
                   | Inr annotations \<Rightarrow>
                       (case py_iter annotations of
                          Inl e \<Rightarrow> (Inl e, w1)
                        | Inr annotation_list \<Rightarrow>
                            (case filter_err revised_annotation annotation_list of
                               Inl e \<Rightarrow> (Inl e, w1)
                             | Inr revised_annotations \<Rightarrow>
                                 (case sorted_py (\<lambda>x. subscript x ''start_offset'')
                                         revised_annotations of
                                    Inl e \<Rightarrow> (Inl e, w1)
                                  | Inr sorted_annotations \<Rightarrow> (Inr sorted_annotations, w1)))))))"

section \<open>Single-request operations\<close>

text \<open>
  The URL builders of \<^verbatim>\<open>urls.py\<close> and the constant \<^verbatim>\<open>KONFUZIO_HOST\<close> are parameters.
\<close>

definition whitelist :: "string list" where
  "whitelist = [''application/pdf'', ''image/jpeg'', ''image/png'', ''image/jpg'']"

definition str_or_none :: "string option \<Rightarrow> json" where
  "str_or_none s = (case s of None \<Rightarrow> JNull | Some t \<Rightarrow> JStr t)"

definition download_file_konfuzio_api ::
  "(int \<Rightarrow> json) \<Rightarrow> (int \<Rightarrow> json) \<Rightarrow> json \<Rightarrow> int \<Rightarrow> bool \<Rightarrow> session \<Rightarrow> world
     \<Rightarrow> (error + string) \<times> world" where
  "download_file_konfuzio_api get_document_ocr_file_url get_document_original_file_url
       KONFUZIO_HOST document_id ocr session w =
     (let url = (if ocr then get_document_ocr_file_url document_id
                 else get_document_original_file_url document_id)
      in case send session (GET url) w of
           (Raises, w1) \<Rightarrow> (Inl RequestException, w1)
         | (Responds r, w1) \<Rightarrow>
             if raise_for_status r \<and> status_code r \<noteq> 200 then
               (let w2 = logger (Exception [Lit ''Requests error'']) w1
                in case detail r of
                     Inl e \<Rightarrow> (Inl e, w2)
                   | Inr d \<Rightarrow> (Inl (FileNotFoundError [Fmt d]), w2))
             else if content_type r \<notin> set (map Some whitelist) then
               (Inl (FileNotFoundError
                      [Lit ''CONTENT TYP of '', Fmt (JInt document_id), Lit '' is '',
                       Fmt (str_or_none (content_type r)), Lit '' and no PDF or image.'']), w1)
             else
               (Inr (content r),
                logger (Info [Lit ''Downloaded file '', Fmt (JInt document_id), Lit '' from '',
                              Fmt KONFUZIO_HOST, Lit ''.'']) w1))"

definition delete_file_konfuzio_api ::
  "(int \<Rightarrow> json) \<Rightarrow> int \<Rightarrow> session \<Rightarrow> world \<Rightarrow> (error + bool) \<times> world" where
  "delete_file_konfuzio_api get_document_result_v1 document_id session w =
     (let url = get_document_result_v1 document_id;
          data = JDict [(''id'', JInt document_id)]
      in case send session (DELETE url data) w of
           (Raises, w1) \<Rightarrow> (Inl RequestException, w1)
         | (Responds r, w1) \<Rightarrow>
             if status_code r = 204 then (Inr True, w1) else (Inl (AssertionError []), w1))"

record template =
  id_attr :: int

definition response_str :: "response \<Rightarrow> message" where
  "response_str r = [Lit ''<Response ['', Fmt (JInt (status_code r)), Lit '']>'']"

definition create_label ::
  "json \<Rightarrow> int \<Rightarrow> string \<Rightarrow> template list \<Rightarrow> session \<Rightarrow> world \<Rightarrow> (error + json) \<times> world" where
  "create_label get_create_label_url project_id label_name templates session w =
     (let url = get_create_label_url;
          templates_ids = map id_attr templates;
          data = JDict [(''project'', JInt project_id), (''text'', JStr label_name),
                        (''templates'', JList (map JInt templates_ids))]
      in case send session (POST url data) w of
           (Raises, w1) \<Rightarrow> (Inl RequestException, w1)
         | (Responds r, w1) \<Rightarrow>
             if status_code r = 201 then
               (case json_body r of
                  None \<Rightarrow> (Inl JSONDecodeError, w1)
                | Some b \<Rightarrow> (subscript b ''id'', w1))
             else (Inl (AssertionError (Lit ''Status of request: '' # response_str r)), w1))"

section \<open>Vocabulary of the statements\<close>

text \<open>
  What follows is not code of the SDK: predicates and sample data used to state its
  properties. A response is \<open>transient\<close> when \<open>retry_get\<close> answers it with a retry;
  \<open>retried url g l s w\<close> is the world \<open>w\<close> after \<open>g\<close> more GETs of \<open>url\<close>, \<open>l\<close> more
  retry warnings and \<open>s\<close> more sleeps of 15 units, which happened in rounds: \<open>s\<close> times a
  GET, then its warning, then the sleep, and after them the GETs and then the warnings that
  no sleep followed.
\<close>

definition transient :: "response \<Rightarrow> bool" where
  "transient x \<longleftrightarrow> raise_for_status x \<and> \<not> (401 \<le> status_code x \<and> status_code x \<le> 403) \<and> status_code x \<noteq> 500"

definition warning_of :: "json \<Rightarrow> log_entry" where
  "warning_of url = Warning [Lit ''Retry to get url >>'', Fmt url, Lit ''<<'']"

definition retried :: "json \<Rightarrow> nat \<Rightarrow> nat \<Rightarrow> nat \<Rightarrow> world \<Rightarrow> world" where
  "retried url gets warnings sleeps w =
     w\<lparr>requested := requested w @ replicate gets (GET url),
       logged := logged w @ replicate warnings (warning_of url),
       slept := slept w @ replicate sleeps 15,
       events := events w
         @ concat (replicate sleeps [Sent (GET url), Logged (warning_of url), Slept 15])
         @ replicate (gets - sleeps) (Sent (GET url))
         @ replicate (warnings - sleeps) (Logged (warning_of url))\<rparr>"

definition json_response :: "int \<Rightarrow> json \<Rightarrow> response" where
  "json_response status body =
     \<lparr>status_code = status, json_body = Some body, content_type = Some ''application/json'',
      content = ''''\<rparr>"

definition world0 :: world where
  "world0 = \<lparr>requested = [], logged = [], slept = [], events = []\<rparr>"

text \<open>
  Orders of the sorted lists: \<open>key_le\<close> on elements paired with their keys, \<open>by_key\<close> on
  elements whose key the function \<open>key\<close> computes. Both say that the later key is not
  smaller than the earlier one.
\<close>

definition key_le :: "json \<times> 'a \<Rightarrow> json \<times> 'a \<Rightarrow> bool" where
  "key_le a b \<longleftrightarrow> py_lt (fst b) (fst a) = Inr False"

definition by_key :: "('a \<Rightarrow> error + json) \<Rightarrow> 'a \<Rightarrow> 'a \<Rightarrow> bool" where
  "by_key key a b \<longleftrightarrow> (\<exists>ka kb. key a = Inr ka \<and> key b = Inr kb \<and> py_lt kb ka = Inr False)"

text \<open>
  Two keys are comparable when \<^verbatim>\<open><\<close> between them does not raise.
\<close>

definition comparable :: "json \<Rightarrow> json \<Rightarrow> bool" where
  "comparable a b \<longleftrightarrow> (\<exists>r. py_lt a b = Inr r)"

text \<open>
  \<open>pages_served session url w pages\<close> holds the world after the fetches when, starting at
  \<open>url\<close>, the server serves exactly these pages: each fetch through \<open>retry_get\<close> succeeds with
  a mapping whose \<^verbatim>\<open>results\<close> is the page, every page but the last names a next page, and the
  last has no \<^verbatim>\<open>next\<close> or one that is null (or otherwise false).
\<close>

fun pages_served :: "session \<Rightarrow> json \<Rightarrow> world \<Rightarrow> json list list \<Rightarrow> world option" where
  "pages_served session url w [] = None"
| "pages_served session url w (items # rest) =
     (case retry_get session url w of
        (Inl e, w1) \<Rightarrow> None
      | (Inr r, w1) \<Rightarrow>
          (case json_body r of
             None \<Rightarrow> None
           | Some data \<Rightarrow>
               if dict_get data ''results'' = Some (JList items) then
                 (case dict_get data ''next'' of
                    None \<Rightarrow> if rest = [] then Some w1 else None
                  | Some nxt \<Rightarrow>
                      if truthy nxt then pages_served session nxt w1 rest
                      else if rest = [] then Some w1 else None)
               else None))"

text \<open>
  Sample data: a page of a paginated listing, a document entry, a server of two pages.
\<close>

definition page :: "json list \<Rightarrow> json \<Rightarrow> response" where
  "page items nxt = json_response 200 (JDict [(''results'', JList items), (''next'', nxt)])"

definition doc :: "int \<Rightarrow> int \<Rightarrow> json" where
  "doc i status = JDict [(''id'', JInt i), (''dataset_status'', JInt status)]"

definition two_pages :: session where
  "two_pages h rq =
     Responds (if rq = GET (JStr ''p1'') then page [doc 3 2, doc 1 0] (JStr ''p2'')
               else page [doc 2 3] JNull)"

text \<open>
  The start offset of an annotation, \<^verbatim>\<open>x.get('start_offset')\<close>: null when the field is missing.
\<close>

definition start_offset :: "json \<Rightarrow> json" where
  "start_offset x = (case dict_get x ''start_offset'' of None \<Rightarrow> JNull | Some v \<Rightarrow> v)"

text \<open>
  \<open>nulls_last a b\<close>: \<open>a\<close> may stand before \<open>b\<close> in a list sorted by start offset with the
  null offsets last.
\<close>

definition nulls_last :: "json \<Rightarrow> json \<Rightarrow> bool" where
  "nulls_last a b \<longleftrightarrow>
     (start_offset a = JNull \<longrightarrow> start_offset b = JNull) \<and>
     (start_offset a \<noteq> JNull \<and> start_offset b \<noteq> JNull \<longrightarrow>
        py_eq (start_offset a) (start_offset b) \<or> py_lt (start_offset b) (start_offset a) = Inr False)"

text \<open>
  The annotations the specification keeps: human-revised, or marked correct, or without a
  server identifier.
\<close>

definition kept :: "json \<Rightarrow> bool" where
  "kept x =
     (case (dict_get x ''revised'', dict_get x ''is_correct'', dict_get x ''id'') of
        (Some revised, Some is_correct, Some i) \<Rightarrow> truthy revised \<or> truthy is_correct \<or> \<not> truthy i
      | _ \<Rightarrow> False)"

text \<open>
  An annotation record of the data model: a mapping with the fields \<^verbatim>\<open>revised\<close>,
  \<^verbatim>\<open>is_correct\<close> and \<^verbatim>\<open>id\<close>, whose start offset is an integer, null or missing.
\<close>

definition annotation_record :: "json \<Rightarrow> bool" where
  "annotation_record x \<longleftrightarrow>
     dict_get x ''revised'' \<noteq> None \<and> dict_get x ''is_correct'' \<noteq> None \<and> dict_get x ''id'' \<noteq> None \<and>
     (case start_offset x of JNull \<Rightarrow> True | JInt n \<Rightarrow> True | _ \<Rightarrow> False)"

text \<open>
  Sample data: an annotation, and a server whose document has the given annotations.
\<close>

definition ann :: "int \<Rightarrow> bool \<Rightarrow> json \<Rightarrow> json" where
  "ann i revised offset =
     JDict [(''id'', JInt i), (''revised'', JBool revised), (''is_correct'', JBool False),
            (''start_offset'', offset)]"

definition document :: "json list \<Rightarrow> session" where
  "document annotations h rq = Responds (json_response 200 (JDict [(''annotations'', JList annotations)]))"

section \<open>Properties of retry_get\<close>

lemma retry_get_loop_success:
  assumes "session (requested w) (GET url) = Responds y" "\<not> raise_for_status y"
  shows "retry_get_loop session url rc r w = (Inr y, retried url 1 0 0 w)"
  using assms by (subst retry_get_loop.simps) (simp add: send_def retried_def)

lemma retry_get_loop_step:
  assumes "session (requested w) (GET url) = Responds x" "transient x" "rc + 1 < 10"
  shows "retry_get_loop session url rc r w = retry_get_loop session url (rc + 1) (Some x) (retried url 1 1 1 w)"
  using assms 
  by (subst retry_get_loop.simps) (auto simp: send_def retried_def transient_def handler_def logger_def sleep_def warning_of_def)

lemma retried_retried:
  "retried url a b c (retried url n n n w) = retried url (n + a) (n + b) (n + c) w"
  by (simp add: retried_def replicate_add)



lemma retried0: "retried url 0 0 0 w = w"
  by (simp add: retried_def)

lemma retry_get_loop_steps:
  assumes "\<And>k. k < length xs \<Longrightarrow> session (requested w @ replicate k (GET url)) (GET url) = Responds (xs ! k)"
      and "\<And>x. x \<in> set xs \<Longrightarrow> transient x"
      and "rc + length xs < 10"
  shows "retry_get_loop session url rc r w =
         retry_get_loop session url (rc + length xs) (if xs = [] then r else Some (last xs))
           (retried url (length xs) (length xs) (length xs) w)"
  using assms
proof (induction xs arbitrary: rc r w)
  case Nil
  show ?case by (simp add: retried0)
next
  case (Cons x xs)
  have x0: "session (requested w) (GET url) = Responds x"
    using Cons.prems(1) [of 0] by simp
  have tx: "transient x" and rc1: "rc + 1 < 10"
    using Cons.prems(2,3) by simp_all
  have rest: "session (requested (retried url 1 1 1 w) @ replicate k (GET url)) (GET url) = Responds (xs ! k)"
    if "k < length xs" for k
  proof -
    have "session (requested w @ replicate (Suc k) (GET url)) (GET url) = Responds ((x # xs) ! Suc k)"
      using that by (intro Cons.prems(1)) simp
    then show ?thesis by (simp add: retried_def)
  qed
  have txs: "\<And>y. y \<in> set xs \<Longrightarrow> transient y"
    using Cons.prems(2) by simp
  have rcn: "(rc + 1) + length xs < 10"
    using Cons.prems(3) by simp
  have "retry_get_loop session url rc r w =
        retry_get_loop session url (rc + 1) (Some x) (retried url 1 1 1 w)"
    using x0 tx rc1 by (rule retry_get_loop_step)
  also have "\<dots> =
        retry_get_loop session url (rc + 1 + length xs) (if xs = [] then Some x else Some (last xs))
          (retried url (length xs) (length xs) (length xs) (retried url 1 1 1 w))"
    using rest txs rcn by (rule Cons.IH)
  also have "\<dots> = retry_get_loop session url (rc + length (x # xs))
          (if x # xs = [] then r else Some (last (x # xs)))
          (retried url (length (x # xs)) (length (x # xs)) (length (x # xs)) w)"
    by (simp add: retried_retried)
  finally show ?case .
qed

lemma retry_get_loop_exhausted:
  assumes "session (requested w) (GET url) = Responds x" "transient x" "detail x = Inr d"
  shows "retry_get_loop session url 9 r w =
         (Inl (TimeoutError [Lit ''Unknown issue even after 10 retries '', Fmt d]), retried url 1 1 0 w)"
  using assms
  by (subst retry_get_loop.simps)
     (auto simp: send_def retried_def transient_def handler_def logger_def warning_of_def)

lemma retry_get_loop_500:
  assumes "session (requested w) (GET url) = Responds x" "status_code x = 500" "detail x = Inr d"
  shows "retry_get_loop session url rc r w =
         (Inl (TimeoutError [Lit ''Problem with server: '', Fmt d, Lit '' even after 10 retries'']),
          retried url 1 0 0 w)"
  using assms
  by (subst retry_get_loop.simps)
     (auto simp: send_def retried_def handler_def raise_for_status_def)

lemma retry_get_loop_auth:
  assumes "session (requested w) (GET url) = Responds x"
      and "401 \<le> status_code x" "status_code x \<le> 403" "detail x = Inr d"
  shows "retry_get_loop session url rc r w =
         (Inl (ConnectionError [Lit ''Problem with credentials: '', Fmt d]), retried url 1 0 0 w)"
  using assms
  by (subst retry_get_loop.simps)
     (auto simp: send_def retried_def handler_def raise_for_status_def)

lemma script_prefix:
  assumes "\<And>k. k < length xs \<Longrightarrow> session (requested w @ replicate k (GET url)) (GET url) = Responds (xs ! k)"
      and "n \<le> length xs" "k < n"
  shows "session (requested w @ replicate k (GET url)) (GET url) = Responds (take n xs ! k)"
  using assms by simp

lemma retry_get_after:
  assumes script: "\<And>k. k < length xs \<Longrightarrow> session (requested w @ replicate k (GET url)) (GET url) = Responds (xs ! k)"
      and n: "n < length xs" "n < 10" and tr: "\<And>k. k < n \<Longrightarrow> transient (xs ! k)"
  shows "retry_get session url w =
         retry_get_loop session url n (if n = 0 then None else Some (xs ! (n - 1))) (retried url n n n w)"
    and "session (requested (retried url n n n w)) (GET url) = Responds (xs ! n)"
proof -
  let ?ys = "take n xs"
  have len: "length ?ys = n" using n by simp
  have a: "\<And>k. k < length ?ys \<Longrightarrow>
             session (requested w @ replicate k (GET url)) (GET url) = Responds (?ys ! k)"
    using script n by simp
  have b: "\<And>x. x \<in> set ?ys \<Longrightarrow> transient x"
    using tr n by (auto simp: in_set_conv_nth)
  have c: "0 + length ?ys < 10" using n by simp
  have "retry_get_loop session url 0 None w =
        retry_get_loop session url (0 + length ?ys) (if ?ys = [] then None else Some (last ?ys))
          (retried url (length ?ys) (length ?ys) (length ?ys) w)"
    using a b c by (rule retry_get_loop_steps)
  moreover have "(if ?ys = [] then None else Some (last ?ys)) = (if n = 0 then None else Some (xs ! (n - 1)))"
    using n by (auto simp: last_conv_nth)
  ultimately show "retry_get session url w =
         retry_get_loop session url n (if n = 0 then None else Some (xs ! (n - 1))) (retried url n n n w)"
    unfolding retry_get_def len by simp
  show "session (requested (retried url n n n w)) (GET url) = Responds (xs ! n)"
    using script [of n] n by (simp add: retried_def)
qed

lemma retry_get_first:
  "retry_get session url w = retry_get_loop session url 0 None w"
  by (simp add: retry_get_def)

lemma retry_get_loop_raises_unbound:
  assumes "session (requested w) (GET url) = Raises"
  shows "retry_get_loop session url rc None w = (Inl UnboundLocalError, retried url 1 0 0 w)"
  using assms
  by (subst retry_get_loop.simps) (simp add: send_def retried_def handler_def)

lemma retry_get_loop_no_detail:
  assumes "session (requested w) (GET url) = Responds x"
      and "401 \<le> status_code x \<and> status_code x \<le> 403 \<or> status_code x = 500"
      and "detail x = Inl e"
  shows "retry_get_loop session url rc r w = (Inl e, retried url 1 0 0 w)"
  using assms
  by (subst retry_get_loop.simps)
     (auto simp: send_def retried_def handler_def raise_for_status_def)

lemma detail_errors:
  "detail x = Inl e \<Longrightarrow> e = JSONDecodeError \<or> e = KeyError \<or> e = TypeError"
  by (cases "json_body x"; cases "the (json_body x)")
     (auto simp: detail_def split: option.splits)


lemma retry_get_loop_exhausted_no_detail:
  assumes "session (requested w) (GET url) = Responds x" "transient x" "detail x = Inl e"
  shows "retry_get_loop session url 9 r w = (Inl e, retried url 1 1 0 w)"
  using assms
  by (subst retry_get_loop.simps)
     (auto simp: send_def retried_def transient_def handler_def logger_def warning_of_def)

text \<open>
  C1, as stated, speaks of every status that is not a success (2xx). A response with status
  304 is none, and the call returns it at once, with no warning, no sleep and no retry:
  \<open>raise_for_status\<close> raises for the statuses 400 to 599 only. And ten responses with status
  503 whose body is not JSON end the call in \<open>JSONDecodeError\<close>, after the ten attempts,
  not in the retry-exhausted error.
\<close>

theorem retry_get_other_status_counterexample:
  "retry_get (\<lambda>h rq. Responds \<lparr>status_code = 304, json_body = None,
                                 content_type = None, content = []\<rparr>)
     (JStr ''u'') world0 =
   (Inr \<lparr>status_code = 304, json_body = None, content_type = None, content = []\<rparr>,
    \<lparr>requested = [GET (JStr ''u'')], logged = [], slept = [],
     events = [Sent (GET (JStr ''u''))]\<rparr>)
   \<and>
   retry_get (\<lambda>h rq. Responds \<lparr>status_code = 503, json_body = None,
                                 content_type = Some ''text/html'', content = ''<html>''\<rparr>)
     (JStr ''u'') world0 =
   (Inl JSONDecodeError,
    \<lparr>requested = replicate 10 (GET (JStr ''u'')),
     logged = replicate 10 (warning_of (JStr ''u'')),
     slept = replicate 9 15,
     events = concat (replicate 9 [Sent (GET (JStr ''u'')), Logged (warning_of (JStr ''u'')), Slept 15])
              @ [Sent (GET (JStr ''u'')), Logged (warning_of (JStr ''u''))]\<rparr>)"
proof -
  let ?r304 = "\<lparr>status_code = 304, json_body = None, content_type = None, content = []\<rparr>"
  let ?bad = "\<lparr>status_code = 503, json_body = None, content_type = Some ''text/html'',
               content = ''<html>''\<rparr>"
  let ?s1 = "\<lambda>(h::request list) (rq::request). Responds ?r304"
  let ?s2 = "\<lambda>(h::request list) (rq::request). Responds ?bad"
  let ?u = "JStr ''u''"
  have "retry_get ?s1 ?u world0 = (Inr ?r304, retried ?u 1 0 0 world0)"
    unfolding retry_get_first
    by (rule retry_get_loop_success) (simp_all add: raise_for_status_def)
  then have 1: "retry_get ?s1 ?u world0 =
      (Inr ?r304, \<lparr>requested = [GET ?u], logged = [], slept = [], events = [Sent (GET ?u)]\<rparr>)"
    by (simp add: retried_def world0_def)
  have bad: "transient ?bad" "detail ?bad = Inl JSONDecodeError"
    by (simp_all add: transient_def raise_for_status_def detail_def)
  have script: "\<And>k. k < length (replicate 10 ?bad) \<Longrightarrow>
      ?s2 (requested world0 @ replicate k (GET ?u)) (GET ?u) = Responds (replicate 10 ?bad ! k)"
    by simp
  have tr: "\<And>k. k < 9 \<Longrightarrow> transient (replicate 10 ?bad ! k)"
    using bad(1) by simp
  have n: "9 < length (replicate 10 ?bad)" "(9::nat) < 10" by simp_all
  note after = retry_get_after [of "replicate 10 ?bad" ?s2 world0 ?u 9, OF script n tr]
  have resp: "?s2 (requested (retried ?u 9 9 9 world0)) (GET ?u) = Responds ?bad"
    by simp
  have "retry_get ?s2 ?u world0 =
        retry_get_loop ?s2 ?u 9 (if (9::nat) = 0 then None else Some (replicate 10 ?bad ! (9 - 1)))
          (retried ?u 9 9 9 world0)"
    by (rule after(1))
  also have "\<dots> = (Inl JSONDecodeError, retried ?u 1 1 0 (retried ?u 9 9 9 world0))"
    using resp bad by (rule retry_get_loop_exhausted_no_detail)
  also have "\<dots> = (Inl JSONDecodeError, retried ?u 10 10 9 world0)"
    by (simp add: retried_retried)
  finally have 2: "retry_get ?s2 ?u world0 =
      (Inl JSONDecodeError,
       \<lparr>requested = replicate 10 (GET ?u), logged = replicate 10 (warning_of ?u),
        slept = replicate 9 15,
        events = concat (replicate 9 [Sent (GET ?u), Logged (warning_of ?u), Slept 15])
                 @ [Sent (GET ?u), Logged (warning_of ?u)]\<rparr>)"
    by (simp add: retried_def world0_def)
  from 1 2 show ?thesis by (rule conjI)
qed

text \<open>
  C1, amended. The server's responses to the successive GETs of one call are \<open>xs\<close>. A response
  is \<open>transient\<close> when its status is an error status, 400 to 599, outside 401..403 and other
  than 500. Every transient response logs one warning and, unless it is the tenth, is
  followed by one sleep of 15 units and then by the next GET: the events of the call are
  rounds of GET, warning and sleep, in this order. If response \<open>n < 10\<close> is the first whose
  status is not an error status (every 2xx is such), the call returns it after \<open>n\<close> rounds
  and one more GET. If the first ten responses are transient and the body of the tenth is
  a JSON mapping with a \<open>detail\<close> field, the call makes exactly ten GETs, logs ten warnings,
  sleeps nine times and raises the retry-exhausted \<open>TimeoutError\<close> that carries that detail.
\<close>

theorem retry_get_other_status:
  assumes "\<And>k. k < length xs \<Longrightarrow>
             session (requested w @ replicate k (GET url)) (GET url) = Responds (xs ! k)"
  shows "(\<forall>n. n < length xs \<and> n < 10 \<and> (\<forall>k<n. transient (xs ! k)) \<and> \<not> raise_for_status (xs ! n) \<longrightarrow>
            retry_get session url w = (Inr (xs ! n), retried url (n + 1) n n w))
       \<and> (\<forall>d. 10 \<le> length xs \<and> (\<forall>k<10. transient (xs ! k)) \<and> detail (xs ! 9) = Inr d \<longrightarrow>
            retry_get session url w =
              (Inl (TimeoutError [Lit ''Unknown issue even after 10 retries '', Fmt d]),
               retried url 10 10 9 w))"
proof (intro conjI allI impI)
  fix n
  assume h: "n < length xs \<and> n < 10 \<and> (\<forall>k<n. transient (xs ! k)) \<and> \<not> raise_for_status (xs ! n)"
  then have n: "n < length xs" "n < 10" and tr: "\<And>k. k < n \<Longrightarrow> transient (xs ! k)"
    and ok: "\<not> raise_for_status (xs ! n)"
    by auto
  note after = retry_get_after [of xs session w url n, OF assms n tr]
  have "retry_get session url w =
        retry_get_loop session url n (if n = 0 then None else Some (xs ! (n - 1))) (retried url n n n w)"
    by (rule after(1))
  also have "\<dots> = (Inr (xs ! n), retried url 1 0 0 (retried url n n n w))"
    using after(2) ok by (rule retry_get_loop_success)
  also have "\<dots> = (Inr (xs ! n), retried url (n + 1) n n w)"
    by (simp add: retried_retried)
  finally show "retry_get session url w = (Inr (xs ! n), retried url (n + 1) n n w)" .
next
  fix d
  assume h: "10 \<le> length xs \<and> (\<forall>k<10. transient (xs ! k)) \<and> detail (xs ! 9) = Inr d"
  then have n: "9 < length xs" "(9::nat) < 10" and tr: "\<And>k. k < 9 \<Longrightarrow> transient (xs ! k)"
    and last: "transient (xs ! 9)" "detail (xs ! 9) = Inr d"
    by auto
  note after = retry_get_after [of xs session w url 9, OF assms n tr]
  have "retry_get session url w =
        retry_get_loop session url 9 (if (9::nat) = 0 then None else Some (xs ! (9 - 1))) (retried url 9 9 9 w)"
    by (rule after(1))
  also have "\<dots> = (Inl (TimeoutError [Lit ''Unknown issue even after 10 retries '', Fmt d]),
         retried url 1 1 0 (retried url 9 9 9 w))"
    using after(2) last by (rule retry_get_loop_exhausted)
  also have "\<dots> = (Inl (TimeoutError [Lit ''Unknown issue even after 10 retries '', Fmt d]),
               retried url 10 10 9 w)"
    by (simp add: retried_retried)
  finally show "retry_get session url w =
              (Inl (TimeoutError [Lit ''Unknown issue even after 10 retries '', Fmt d]),
               retried url 10 10 9 w)" .
qed

theorem retry_get_other_status_witness:
  "retry_get (\<lambda>h rq. Responds (if length h < 9
                then json_response 503 (JDict [(''detail'', JStr ''unavailable'')])
                else json_response 200 (JList [])))
     (JStr ''u'') world0 =
   (Inr (json_response 200 (JList [])),
    \<lparr>requested = replicate 10 (GET (JStr ''u'')),
     logged = replicate 9 (warning_of (JStr ''u'')),
     slept = replicate 9 15,
     events = concat (replicate 9 [Sent (GET (JStr ''u'')), Logged (warning_of (JStr ''u'')), Slept 15]) @ [Sent (GET (JStr ''u''))]\<rparr>)
   \<and>
   retry_get (\<lambda>h rq. Responds (json_response 503 (JDict [(''detail'', JStr ''unavailable'')])))
     (JStr ''u'') world0 =
   (Inl (TimeoutError [Lit ''Unknown issue even after 10 retries '', Fmt (JStr ''unavailable'')]),
    \<lparr>requested = replicate 10 (GET (JStr ''u'')),
     logged = replicate 10 (warning_of (JStr ''u'')),
     slept = replicate 9 15,
     events = concat (replicate 9 [Sent (GET (JStr ''u'')), Logged (warning_of (JStr ''u'')), Slept 15])
              @ [Sent (GET (JStr ''u'')), Logged (warning_of (JStr ''u''))]\<rparr>)"
proof -
  let ?bad = "json_response 503 (JDict [(''detail'', JStr ''unavailable'')])"
  let ?good = "json_response 200 (JList [])"
  let ?s1 = "\<lambda>(h::request list) (rq::request). Responds (if length h < 9 then ?bad else ?good)"
  let ?s2 = "\<lambda>(h::request list) (rq::request). Responds ?bad"
  have bad: "transient ?bad" "detail ?bad = Inr (JStr ''unavailable'')"
    by (simp_all add: transient_def raise_for_status_def json_response_def detail_def)
  have good: "\<not> raise_for_status ?good"
    by (simp add: raise_for_status_def json_response_def)
  have a: "\<And>k. k < length (replicate 9 ?bad @ [?good]) \<Longrightarrow>
      ?s1 (requested world0 @ replicate k (GET (JStr ''u''))) (GET (JStr ''u'')) =
      Responds ((replicate 9 ?bad @ [?good]) ! k)"
    by (auto simp: world0_def nth_append)
  have b: "\<And>k. k < length (replicate 11 ?bad) \<Longrightarrow>
      ?s2 (requested world0 @ replicate k (GET (JStr ''u''))) (GET (JStr ''u'')) =
      Responds ((replicate 11 ?bad) ! k)"
    by simp
  have "retry_get ?s1 (JStr ''u'') world0 = (Inr ?good, retried (JStr ''u'') 10 9 9 world0)"
    using retry_get_other_status [of "replicate 9 ?bad @ [?good]" ?s1 world0 "JStr ''u''", OF a]
      bad good
    by (auto simp: nth_append dest!: spec [of _ "9::nat"])
  moreover
  have "retry_get ?s2 (JStr ''u'') world0 =
     (Inl (TimeoutError [Lit ''Unknown issue even after 10 retries '', Fmt (JStr ''unavailable'')]),
      retried (JStr ''u'') 10 10 9 world0)"
    using retry_get_other_status [of "replicate 11 ?bad" ?s2 world0 "JStr ''u''", OF b] bad
    by simp
  ultimately show ?thesis
    by (simp add: retried_def world0_def)
qed

text \<open>
  C2. When the first response has a status in 401..403 and its body provides a detail
  message, the call raises the authentication error \<open>ConnectionError\<close> carrying that message
  after one GET, with no warning logged (no retry) and no sleep.
\<close>

theorem retry_get_credentials:
  assumes "session (requested w) (GET url) = Responds x"
      and "401 \<le> status_code x" and "status_code x \<le> 403"
      and "detail x = Inr d"
  shows "retry_get session url w =
         (Inl (ConnectionError [Lit ''Problem with credentials: '', Fmt d]), retried url 1 0 0 w)"
  unfolding retry_get_first using assms by (rule retry_get_loop_auth)

theorem retry_get_credentials_witness:
  "retry_get (\<lambda>h rq. Responds (json_response 401 (JDict [(''detail'', JStr ''bad token'')])))
     (JStr ''u'') world0 =
   (Inl (ConnectionError [Lit ''Problem with credentials: '', Fmt (JStr ''bad token'')]),
    \<lparr>requested = [GET (JStr ''u'')], logged = [], slept = [],
      events = [Sent (GET (JStr ''u''))]\<rparr>)"
  using retry_get_credentials [of "\<lambda>h rq. Responds (json_response 401 (JDict [(''detail'', JStr ''bad token'')]))"
      world0 "JStr ''u''" "json_response 401 (JDict [(''detail'', JStr ''bad token'')])" "JStr ''bad token''"]
  by (simp add: json_response_def detail_def retried_def world0_def)

text \<open>
  C3, as stated, says that a status 500 fails after exactly 10 retry attempts. A server that
  answers 500 makes the call fail on the first response: one GET, no retry, no sleep.
\<close>

theorem retry_get_500_counterexample:
  "retry_get (\<lambda>h rq. Responds (json_response 500 (JDict [(''detail'', JStr ''boom'')])))
     (JStr ''u'') world0 =
   (Inl (TimeoutError [Lit ''Problem with server: '', Fmt (JStr ''boom''),
                       Lit '' even after 10 retries'']),
    \<lparr>requested = [GET (JStr ''u'')], logged = [], slept = [],
      events = [Sent (GET (JStr ''u''))]\<rparr>)"
  unfolding retry_get_first
  by (subst retry_get_loop.simps)
     (simp add: send_def handler_def raise_for_status_def json_response_def detail_def world0_def)

text \<open>
  C3, amended. A response with status 500 ends the call at once: the call raises the
  timeout/server error \<open>TimeoutError\<close> carrying the server's detail message (its text ends
  in "even after 10 retries"), and that response is not retried. The retries made before it
  are the \<open>n < 10\<close> transient responses that preceded it, none when the first response has
  status 500.
\<close>

theorem retry_get_500:
  assumes "\<And>k. k < length xs \<Longrightarrow>
             session (requested w @ replicate k (GET url)) (GET url) = Responds (xs ! k)"
      and "n < length xs" and "n < 10" and "\<And>k. k < n \<Longrightarrow> transient (xs ! k)"
      and "status_code (xs ! n) = 500" and "detail (xs ! n) = Inr d"
  shows "retry_get session url w =
         (Inl (TimeoutError [Lit ''Problem with server: '', Fmt d, Lit '' even after 10 retries'']),
          retried url (n + 1) n n w)"
proof -
  note after = retry_get_after [of xs session w url n, OF assms(1-4)]
  have "retry_get session url w =
        retry_get_loop session url n (if n = 0 then None else Some (xs ! (n - 1))) (retried url n n n w)"
    by (rule after(1))
  also have "\<dots> = (Inl (TimeoutError [Lit ''Problem with server: '', Fmt d,
                                         Lit '' even after 10 retries'']),
                     retried url 1 0 0 (retried url n n n w))"
    using after(2) assms(5,6) by (rule retry_get_loop_500)
  also have "\<dots> = (Inl (TimeoutError [Lit ''Problem with server: '', Fmt d,
                                         Lit '' even after 10 retries'']),
                     retried url (n + 1) n n w)"
    by (simp add: retried_retried)
  finally show ?thesis .
qed

theorem retry_get_500_witness:
  "retry_get (\<lambda>h rq. Responds (if length h < 3
                then json_response 503 (JDict [(''detail'', JStr ''unavailable'')])
                else json_response 500 (JDict [(''detail'', JStr ''boom'')])))
     (JStr ''u'') world0 =
   (Inl (TimeoutError [Lit ''Problem with server: '', Fmt (JStr ''boom''),
                       Lit '' even after 10 retries'']),
    \<lparr>requested = replicate 4 (GET (JStr ''u'')),
     logged = replicate 3 (warning_of (JStr ''u'')),
     slept = replicate 3 15,
     events = concat (replicate 3 [Sent (GET (JStr ''u'')), Logged (warning_of (JStr ''u'')), Slept 15]) @ [Sent (GET (JStr ''u''))]\<rparr>)"
proof -
  let ?bad = "json_response 503 (JDict [(''detail'', JStr ''unavailable'')])"
  let ?err = "json_response 500 (JDict [(''detail'', JStr ''boom'')])"
  let ?s = "\<lambda>(h::request list) (rq::request). Responds (if length h < 3 then ?bad else ?err)"
  let ?xs = "replicate 3 ?bad @ [?err]"
  have a: "\<And>k. k < length ?xs \<Longrightarrow>
      ?s (requested world0 @ replicate k (GET (JStr ''u''))) (GET (JStr ''u'')) = Responds (?xs ! k)"
    by (auto simp: world0_def nth_append)
  have b: "3 < length ?xs" "(3::nat) < 10" by simp_all
  have c: "\<And>k. k < 3 \<Longrightarrow> transient (?xs ! k)"
    by (simp add: nth_append transient_def raise_for_status_def json_response_def)
  have d: "status_code (?xs ! 3) = 500" "detail (?xs ! 3) = Inr (JStr ''boom'')"
    by (simp_all add: nth_append json_response_def detail_def)
  show ?thesis
    using retry_get_500 [of ?xs ?s world0 "JStr ''u''" 3 "JStr ''boom''", OF a b c d]
    by (simp add: retried_def world0_def)
qed

text \<open>
  C10. The classification in the exception handler needs a response whose body is a JSON
  mapping with a \<open>detail\<close> field. If the first GET raises, the handler reads the unbound
  local \<open>r\<close> and the call ends in \<open>UnboundLocalError\<close>, none of the specified errors.
  If the first response has a status in 401..403 or 500 and its body has no detail, the call
  ends in the error of the failed lookup (\<open>JSONDecodeError\<close>, \<open>KeyError\<close> or
  \<open>TypeError\<close>).
\<close>

theorem retry_get_unclassified:
  "(session (requested w) (GET url) = Raises \<longrightarrow>
      retry_get session url w = (Inl UnboundLocalError, retried url 1 0 0 w))
   \<and> (\<forall>x e. session (requested w) (GET url) = Responds x
          \<and> (401 \<le> status_code x \<and> status_code x \<le> 403 \<or> status_code x = 500)
          \<and> detail x = Inl e \<longrightarrow>
        retry_get session url w = (Inl e, retried url 1 0 0 w)
        \<and> (e = JSONDecodeError \<or> e = KeyError \<or> e = TypeError))"
  unfolding retry_get_first
  by (intro conjI allI impI; (elim conjE)?)
     (simp_all add: retry_get_loop_raises_unbound retry_get_loop_no_detail detail_errors)

theorem retry_get_unclassified_witness:
  "retry_get (\<lambda>h rq. Raises) (JStr ''u'') world0 =
     (Inl UnboundLocalError, \<lparr>requested = [GET (JStr ''u'')], logged = [], slept = [],
      events = [Sent (GET (JStr ''u''))]\<rparr>)
   \<and> retry_get (\<lambda>h rq. Responds \<lparr>status_code = 500, json_body = None,
                                   content_type = Some ''text/html'', content = ''''\<rparr>)
       (JStr ''u'') world0 =
     (Inl JSONDecodeError, \<lparr>requested = [GET (JStr ''u'')], logged = [], slept = [],
      events = [Sent (GET (JStr ''u''))]\<rparr>)"
  using retry_get_unclassified [of "\<lambda>h rq. Raises" world0 "JStr ''u''"]
    retry_get_unclassified [of "\<lambda>h rq. Responds \<lparr>status_code = 500, json_body = None,
                                   content_type = Some ''text/html'', content = ''''\<rparr>" world0 "JStr ''u''"]
  by (simp add: detail_def retried_def world0_def)

section \<open>Properties of the single-request operations\<close>

text \<open>
  C9. \<open>delete_file_konfuzio_api\<close> returns \<open>True\<close> exactly when the server responds with
  status 204, and for a response with any other status (200 too) it raises the bare
  \<open>AssertionError\<close>. \<open>create_label\<close> raises \<open>AssertionError\<close> for a response whose status is
  not 201, and for status 201 it returns the \<open>id\<close> field of the response body.
\<close>

theorem assert_status:
  "(fst (delete_file_konfuzio_api document_url document_id session w) = Inr True \<longleftrightarrow>
      (\<exists>r. session (requested w) (DELETE (document_url document_id)
                (JDict [(''id'', JInt document_id)])) = Responds r \<and> status_code r = 204))
   \<and> (\<forall>r. session (requested w) (DELETE (document_url document_id)
                (JDict [(''id'', JInt document_id)])) = Responds r \<and> status_code r \<noteq> 204 \<longrightarrow>
          fst (delete_file_konfuzio_api document_url document_id session w) =
            Inl (AssertionError []))
   \<and> (\<forall>r. session (requested w) (POST get_create_label_url
                (JDict [(''project'', JInt project_id), (''text'', JStr label_name),
                        (''templates'', JList (map JInt (map id_attr templates)))])) = Responds r \<longrightarrow>
          (status_code r \<noteq> 201 \<longrightarrow>
             fst (create_label get_create_label_url project_id label_name templates session w) =
               Inl (AssertionError (Lit ''Status of request: '' # response_str r)))
        \<and> (\<forall>b i. status_code r = 201 \<and> json_body r = Some b \<and> subscript b ''id'' = Inr i \<longrightarrow>
             fst (create_label get_create_label_url project_id label_name templates session w) =
               Inr i))"
  by (auto simp: delete_file_konfuzio_api_def create_label_def send_def Let_def
           split: outcome.splits)

theorem assert_status_witness:
  "fst (delete_file_konfuzio_api (\<lambda>i. JStr ''d'') 7
          (\<lambda>h rq. Responds (json_response 200 JNull)) world0) = Inl (AssertionError [])
   \<and> fst (delete_file_konfuzio_api (\<lambda>i. JStr ''d'') 7
          (\<lambda>h rq. Responds (json_response 204 JNull)) world0) = Inr True
   \<and> fst (create_label (JStr ''l'') 1 ''name'' [\<lparr>id_attr = 5\<rparr>]
          (\<lambda>h rq. Responds (json_response 201 (JDict [(''id'', JInt 42)]))) world0) = Inr (JInt 42)
   \<and> fst (create_label (JStr ''l'') 1 ''name'' [\<lparr>id_attr = 5\<rparr>]
          (\<lambda>h rq. Responds (json_response 200 (JDict [(''id'', JInt 42)]))) world0) =
       Inl (AssertionError [Lit ''Status of request: '', Lit ''<Response ['', Fmt (JInt 200), Lit '']>''])"
  using assert_status [where document_url = "\<lambda>i. JStr ''d''" and document_id = 7
           and session = "\<lambda>h rq. Responds (json_response 200 JNull)" and w = world0]
    assert_status [where document_url = "\<lambda>i. JStr ''d''" and document_id = 7
           and session = "\<lambda>h rq. Responds (json_response 204 JNull)" and w = world0]
    assert_status [where w = world0 and get_create_label_url = "JStr ''l''" and project_id = 1
           and label_name = "''name''" and templates = "[\<lparr>id_attr = 5\<rparr>]"
           and session = "\<lambda>h rq. Responds (json_response 201 (JDict [(''id'', JInt 42)]))"]
    assert_status [where w = world0 and get_create_label_url = "JStr ''l''" and project_id = 1
           and label_name = "''name''" and templates = "[\<lparr>id_attr = 5\<rparr>]"
           and session = "\<lambda>h rq. Responds (json_response 200 (JDict [(''id'', JInt 42)]))"]
  by (simp add: json_response_def response_str_def)

text \<open>
  C8, as stated, says that a content type of \<open>text/html\<close> raises a not-found error whatever
  the status. For a 404 response with an HTML body the download raises \<open>JSONDecodeError\<close>:
  the error branch reads the detail of the body before it builds the not-found error.
\<close>

theorem download_html_counterexample:
  "download_file_konfuzio_api (\<lambda>i. JStr ''ocr'') (\<lambda>i. JStr ''original'') (JStr ''host'') 7 True
     (\<lambda>h rq. Responds \<lparr>status_code = 404, json_body = None,
                          content_type = Some ''text/html'', content = ''<html>''\<rparr>) world0 =
   (Inl JSONDecodeError,
    \<lparr>requested = [GET (JStr ''ocr'')], logged = [Exception [Lit ''Requests error'']], slept = [],
     events = [Sent (GET (JStr ''ocr'')), Logged (Exception [Lit ''Requests error''])]\<rparr>)"
  by (simp add: download_file_konfuzio_api_def send_def raise_for_status_def logger_def
        detail_def world0_def Let_def)

text \<open>
  C8, amended. For an error status (400 to 599) whose body is a JSON mapping with a
  \<open>detail\<close> field, \<open>download_file_konfuzio_api\<close> raises the not-found error carrying that
  detail. For any other status it raises the not-found error when the content type is
  outside the whitelist (\<open>text/html\<close> is) and returns the binary content otherwise.
\<close>

theorem download_file_checked:
  assumes "session (requested w) (GET (if ocr then ocr_url document_id
                                         else original_url document_id)) = Responds r"
  shows "(\<forall>d. raise_for_status r \<and> detail r = Inr d \<longrightarrow>
            fst (download_file_konfuzio_api ocr_url original_url host document_id ocr session w) =
              Inl (FileNotFoundError [Fmt d]))
       \<and> (\<not> raise_for_status r \<and> content_type r \<notin> set (map Some whitelist) \<longrightarrow>
            fst (download_file_konfuzio_api ocr_url original_url host document_id ocr session w) =
              Inl (FileNotFoundError
                     [Lit ''CONTENT TYP of '', Fmt (JInt document_id), Lit '' is '',
                      Fmt (str_or_none (content_type r)), Lit '' and no PDF or image.'']))
       \<and> (\<not> raise_for_status r \<and> content_type r \<in> set (map Some whitelist) \<longrightarrow>
            fst (download_file_konfuzio_api ocr_url original_url host document_id ocr session w) =
              Inr (content r))"
  using assms
  by (auto simp: download_file_konfuzio_api_def send_def Let_def raise_for_status_def)

theorem download_file_checked_witness:
  "fst (download_file_konfuzio_api (\<lambda>i. JStr ''ocr'') (\<lambda>i. JStr ''original'') (JStr ''host'') 7 True
     (\<lambda>h rq. Responds \<lparr>status_code = 404, json_body = Some (JDict [(''detail'', JStr ''Not found.'')]),
                          content_type = Some ''application/json'', content = ''''\<rparr>) world0) =
     Inl (FileNotFoundError [Fmt (JStr ''Not found.'')])
   \<and> fst (download_file_konfuzio_api (\<lambda>i. JStr ''ocr'') (\<lambda>i. JStr ''original'') (JStr ''host'') 7 True
     (\<lambda>h rq. Responds \<lparr>status_code = 200, json_body = None,
                          content_type = Some ''text/html'', content = ''<html>''\<rparr>) world0) =
     Inl (FileNotFoundError [Lit ''CONTENT TYP of '', Fmt (JInt 7), Lit '' is '',
                             Fmt (JStr ''text/html''), Lit '' and no PDF or image.''])
   \<and> fst (download_file_konfuzio_api (\<lambda>i. JStr ''ocr'') (\<lambda>i. JStr ''original'') (JStr ''host'') 7 False
     (\<lambda>h rq. Responds \<lparr>status_code = 200, json_body = None,
                          content_type = Some ''application/pdf'', content = ''%PDF''\<rparr>) world0) =
     Inr ''%PDF''"
  using download_file_checked [where session = "\<lambda>h rq. Responds \<lparr>status_code = 404,
            json_body = Some (JDict [(''detail'', JStr ''Not found.'')]),
            content_type = Some ''application/json'', content = ''''\<rparr>"
          and w = world0 and ocr = True and ocr_url = "\<lambda>i. JStr ''ocr''"
          and original_url = "\<lambda>i. JStr ''original''" and document_id = 7 and host = "JStr ''host''"]
    download_file_checked [where session = "\<lambda>h rq. Responds \<lparr>status_code = 200,
            json_body = None, content_type = Some ''text/html'', content = ''<html>''\<rparr>"
          and w = world0 and ocr = True and ocr_url = "\<lambda>i. JStr ''ocr''"
          and original_url = "\<lambda>i. JStr ''original''" and document_id = 7 and host = "JStr ''host''"]
    download_file_checked [where session = "\<lambda>h rq. Responds \<lparr>status_code = 200,
            json_body = None, content_type = Some ''application/pdf'', content = ''%PDF''\<rparr>"
          and w = world0 and ocr = False and ocr_url = "\<lambda>i. JStr ''ocr''"
          and original_url = "\<lambda>i. JStr ''original''" and document_id = 7 and host = "JStr ''host''"]
  by (simp add: raise_for_status_def detail_def whitelist_def str_or_none_def)

section \<open>Equality and order of JSON values\<close>

lemma py_eq_dict:
  "py_eq (JDict a) (JDict b) \<longleftrightarrow> (\<forall>k. rel_option py_eq (map_of a k) (map_of b k))"
proof
  assume h: "py_eq (JDict a) (JDict b)"
  show "\<forall>k. rel_option py_eq (map_of a k) (map_of b k)"
  proof
    fix k
    show "rel_option py_eq (map_of a k) (map_of b k)"
    proof (cases "map_of a k")
      case None
      have "map_of b k = None"
      proof (rule ccontr)
        assume "map_of b k \<noteq> None"
        then have "k \<in> fst ` set b" by (simp add: map_of_eq_None_iff)
        with h have "map_of a k \<noteq> None" by (auto simp: list_all_iff)
        with None show False by simp
      qed
      with None show ?thesis by simp
    next
      case (Some v)
      then have "(k, v) \<in> set a" by (rule map_of_SomeD)
      with h Some show ?thesis
        by (auto simp: list_all_iff split: option.splits)
    qed
  qed
next
  assume h: "\<forall>k. rel_option py_eq (map_of a k) (map_of b k)"
  have 1: "map_of a k \<noteq> None" if "k \<in> fst ` set b" for k
  proof -
    from that have "map_of b k \<noteq> None" by (simp add: map_of_eq_None_iff)
    with h [rule_format, of k] show ?thesis by (cases "map_of a k") auto
  qed
  have 2: "case map_of b k of None \<Rightarrow> False | Some v' \<Rightarrow> py_eq v v'" if "map_of a k = Some v" for k v
    using h [rule_format, of k] that by (cases "map_of b k") auto
  show "py_eq (JDict a) (JDict b)"
    using 1 2 by (auto simp: list_all_iff)
qed

lemma py_eq_JDictD:
  assumes "py_eq (JDict a) b"
  obtains b' where "b = JDict b'" and "\<forall>k. rel_option py_eq (map_of a k) (map_of b' k)"
proof (cases b)
  case (JDict b')
  with assms have "\<forall>k. rel_option py_eq (map_of a k) (map_of b' k)"
    using py_eq_dict [of a b'] by blast
  with JDict that show ?thesis by blast
qed (use assms in simp_all)

lemma py_eq_number: "number a = Some n \<Longrightarrow> py_eq a b \<longleftrightarrow> number b = Some n"
  by (cases a) (auto split: if_splits)

lemma py_eq_refl: "py_eq a a"
proof (induction a)
  case (JList xs)
  then show ?case by (simp add: list_all2_same)
next
  case (JDict kvs)
  have "rel_option py_eq (map_of kvs k) (map_of kvs k)" for k
  proof (cases "map_of kvs k")
    case (Some v)
    then have "(k, v) \<in> set kvs" by (rule map_of_SomeD)
    then have "py_eq v v" using JDict.IH by fastforce
    with Some show ?thesis by simp
  qed simp
  then show ?case unfolding py_eq_dict by simp
qed auto

lemma py_eq_sym: "py_eq a b \<Longrightarrow> py_eq b a"
proof (induction a arbitrary: b)
  case JNull then show ?case by simp
next
  case (JBool x) then show ?case by (cases b) (auto split: if_splits)
next
  case (JInt x) then show ?case by (cases b) (auto split: if_splits)
next
  case (JStr s) then show ?case by simp
next
  case (JList xs)
  then obtain ys where b: "b = JList ys" and h: "list_all2 py_eq xs ys"
    by (cases b) auto
  have "list_all2 py_eq ys xs"
    using h JList.IH by (auto simp: list_all2_conv_all_nth)
  with b show ?case by simp
next
  case (JDict kvs)
  from py_eq_JDictD [OF JDict.prems]
  obtain kvs' where b: "b = JDict kvs'" and h: "\<forall>k. rel_option py_eq (map_of kvs k) (map_of kvs' k)"
    by blast
  have "rel_option py_eq (map_of kvs' k) (map_of kvs k)" for k
  proof (cases "map_of kvs k")
    case None
    with h [rule_format, of k] show ?thesis by (cases "map_of kvs' k") auto
  next
    case (Some v)
    then have "(k, v) \<in> set kvs" by (rule map_of_SomeD)
    then have "\<And>c. py_eq v c \<Longrightarrow> py_eq c v" using JDict.IH by fastforce
    with Some h [rule_format, of k] show ?thesis by (cases "map_of kvs' k") auto
  qed
  then have "py_eq (JDict kvs') (JDict kvs)" unfolding py_eq_dict by blast
  then show ?case unfolding b .
qed

lemma py_eq_trans: "py_eq a b \<Longrightarrow> py_eq b c \<Longrightarrow> py_eq a c"
proof (induction a arbitrary: b c)
  case JNull then show ?case by simp
next
  case (JBool x)
  then have "number b = Some (if x then 1 else 0)" by simp
  with JBool show ?case by (simp add: py_eq_number)
next
  case (JInt x)
  then have "number b = Some x" by simp
  with JInt show ?case by (simp add: py_eq_number)
next
  case (JStr s) then show ?case by simp
next
  case (JList xs)
  from JList.prems(1) obtain ys where b: "b = JList ys" and h1: "list_all2 py_eq xs ys"
    by (cases b) auto
  from JList.prems(2) b obtain zs where c: "c = JList zs" and h2: "list_all2 py_eq ys zs"
    by (cases c) auto
  have "list_all2 py_eq xs zs"
    using h1 h2 JList.IH by (auto simp: list_all2_conv_all_nth)
  with c show ?case by simp
next
  case (JDict kvs)
  from py_eq_JDictD [OF JDict.prems(1)]
  obtain kvs' where b: "b = JDict kvs'"
      and h1: "\<forall>k. rel_option py_eq (map_of kvs k) (map_of kvs' k)"
    by blast
  from JDict.prems(2) have "py_eq (JDict kvs') c" unfolding b .
  from py_eq_JDictD [OF this]
  obtain kvs'' where c: "c = JDict kvs''"
      and h2: "\<forall>k. rel_option py_eq (map_of kvs' k) (map_of kvs'' k)"
    by blast
  have "rel_option py_eq (map_of kvs k) (map_of kvs'' k)" for k
  proof (cases "map_of kvs k")
    case None
    with h1 [rule_format, of k] h2 [rule_format, of k] show ?thesis
      by (cases "map_of kvs' k"; cases "map_of kvs'' k") auto
  next
    case (Some v)
    then have "(k, v) \<in> set kvs" by (rule map_of_SomeD)
    then have "\<And>b c. py_eq v b \<Longrightarrow> py_eq b c \<Longrightarrow> py_eq v c" using JDict.IH by fastforce
    with Some h1 [rule_format, of k] h2 [rule_format, of k] show ?thesis
      by (cases "map_of kvs' k"; cases "map_of kvs'' k") auto
  qed
  then have "py_eq (JDict kvs) (JDict kvs'')" unfolding py_eq_dict by blast
  then show ?case unfolding c .
qed

lemma py_eq_number_eq: "py_eq b b' \<Longrightarrow> number b = number b'"
  by (cases b; cases b') (auto split: if_splits)

lemma py_eq_JStr: "py_eq b b' \<Longrightarrow> b = JStr t \<longleftrightarrow> b' = JStr t"
  by (cases b; cases b') (auto split: if_splits)

lemma py_eq_JListD:
  assumes "py_eq b b'"
  shows "(\<exists>ys. b = JList ys) \<longleftrightarrow> (\<exists>ys'. b' = JList ys')"
    and "b = JList ys \<Longrightarrow> b' = JList ys' \<Longrightarrow> list_all2 py_eq ys ys'"
  using assms by (cases b; cases b'; auto split: if_splits)+

lemma py_eq_left: "py_eq x x' \<Longrightarrow> py_eq x y = py_eq x' y"
  by (meson py_eq_sym py_eq_trans)

lemma py_eq_right: "py_eq y y' \<Longrightarrow> py_eq x y = py_eq x y'"
  by (meson py_eq_sym py_eq_trans)

lemma py_lt_list_cong_left:
  assumes "list_all2 py_eq xs xs'"
      and "\<And>x x' b. x \<in> set xs \<Longrightarrow> py_eq x x' \<Longrightarrow> py_lt x b = py_lt x' b"
  shows "py_lt_list xs ys = py_lt_list xs' ys"
  using assms
proof (induction xs xs' arbitrary: ys rule: list_all2_induct)
  case Nil
  show ?case by simp
next
  case (Cons x xs x' xs')
  show ?case
  proof (cases ys)
    case Nil
    then show ?thesis by simp
  next
    case (Cons y ys')
    have 1: "py_eq x y = py_eq x' y" using Cons.hyps(1) by (rule py_eq_left)
    have 2: "py_lt x y = py_lt x' y" by (rule Cons.prems) (simp_all add: Cons.hyps(1))
    have 3: "py_lt_list xs ys' = py_lt_list xs' ys'"
    proof (rule Cons.IH)
      fix x x' b assume "x \<in> set xs" "py_eq x x'"
      then show "py_lt x b = py_lt x' b" by (intro Cons.prems) simp_all
    qed
    show ?thesis unfolding \<open>ys = y # ys'\<close> by (simp add: 1 2 3)
  qed
qed

lemma py_lt_cong_left: "py_eq a a' \<Longrightarrow> py_lt a b = py_lt a' b"
proof (induction a arbitrary: a' b)
  case JNull then show ?case by simp
next
  case (JBool x) then show ?case by (cases a') (auto split: if_splits)
next
  case (JInt x) then show ?case by (cases a') (auto split: if_splits)
next
  case (JStr s) then show ?case by simp
next
  case (JList xs)
  then obtain xs' where a': "a' = JList xs'" and h: "list_all2 py_eq xs xs'"
    by (cases a') auto
  show ?case
  proof (cases b)
    case (JList ys)
    have "py_lt_list xs ys = py_lt_list xs' ys"
      using h JList.IH by (rule py_lt_list_cong_left)
    then show ?thesis by (simp add: a' JList)
  qed (simp_all add: a')
next
  case (JDict kvs)
  from py_eq_JDictD [OF JDict.prems] obtain kvs' where "a' = JDict kvs'" by blast
  then show ?case by simp
qed

lemma py_lt_list_cong_right:
  assumes "list_all2 py_eq ys ys'"
      and "\<And>x b b'. x \<in> set xs \<Longrightarrow> py_eq b b' \<Longrightarrow> py_lt x b = py_lt x b'"
  shows "py_lt_list xs ys = py_lt_list xs ys'"
  using assms
proof (induction ys ys' arbitrary: xs rule: list_all2_induct)
  case Nil
  show ?case by simp
next
  case (Cons y ys y' ys')
  show ?case
  proof (cases xs)
    case Nil
    then show ?thesis by simp
  next
    case xs: (Cons x xs')
    have 1: "py_eq x y = py_eq x y'" using Cons.hyps(1) by (rule py_eq_right)
    have 2: "py_lt x y = py_lt x y'"
      by (rule Cons.prems) (simp_all add: Cons.hyps(1) xs)
    have 3: "py_lt_list xs' ys = py_lt_list xs' ys'"
    proof (rule Cons.IH)
      fix z b b' assume "z \<in> set xs'" "py_eq b b'"
      then show "py_lt z b = py_lt z b'" by (intro Cons.prems) (simp_all add: xs)
    qed
    show ?thesis unfolding xs by (simp add: 1 2 3)
  qed
qed

lemma py_eq_case_JStr:
  "py_eq b b' \<Longrightarrow>
   (case b of JStr t \<Rightarrow> f t | _ \<Rightarrow> c) = (case b' of JStr t \<Rightarrow> f t | _ \<Rightarrow> c)"
  by (cases b; cases b') (auto split: if_splits)

lemma py_lt_cong_right: "py_eq b b' \<Longrightarrow> py_lt a b = py_lt a b'"
proof (induction a arbitrary: b b')
  case JNull then show ?case by simp
next
  case (JBool x) show ?case using py_eq_number_eq [OF JBool.prems] by simp
next
  case (JInt x) show ?case using py_eq_number_eq [OF JInt.prems] by simp
next
  case (JStr s)
  show ?case using py_eq_case_JStr [OF JStr.prems] by simp
next
  case (JList xs)
  show ?case
  proof (cases "\<exists>ys. b = JList ys")
    case True
    then obtain ys ys' where b: "b = JList ys" and b': "b' = JList ys'"
      using py_eq_JListD(1) [OF JList.prems] by blast
    then have "list_all2 py_eq ys ys'" using py_eq_JListD(2) [OF JList.prems] by blast
    then have "py_lt_list xs ys = py_lt_list xs ys'"
      using JList.IH by (rule py_lt_list_cong_right)
    then show ?thesis by (simp add: b b')
  next
    case False
    then have "\<not> (\<exists>ys'. b' = JList ys')" using py_eq_JListD(1) [OF JList.prems] by blast
    with False show ?thesis by (cases b; cases b') auto
  qed
next
  case (JDict kvs) then show ?case by simp
qed

lemma py_lt_list_self: "py_lt_list xs xs = Inr False"
  by (induction xs) (simp_all add: py_eq_refl)

lemma py_lt_self: "py_lt x y = Inr r \<Longrightarrow> py_lt y y = Inr False"
  by (cases x; cases y) (auto simp: py_lt_list_self split: if_splits)

lemma py_lt_numberD:
  "py_lt z y = Inr r \<Longrightarrow> number y = Some n \<Longrightarrow> \<exists>k. number z = Some k \<and> r = (k < n)"
  by (cases z; cases y) (auto split: if_splits)

lemma py_lt_list_Nil_right: "py_lt_list zs [] = Inr False"
  by (cases zs) simp_all

lemma py_lt_list_trans:
  assumes "\<And>x y z. x \<in> set xs \<Longrightarrow> py_lt x y = Inr True \<Longrightarrow> py_lt z y = Inr False
             \<Longrightarrow> py_lt z x = Inr False"
      and "py_lt_list xs ys = Inr True" and "py_lt_list zs ys = Inr False"
  shows "py_lt_list zs xs = Inr False"
  using assms
proof (induction xs arbitrary: ys zs)
  case Nil
  show ?case by (rule py_lt_list_Nil_right)
next
  case (Cons x xs)
  from Cons.prems(2) obtain y ys' where ys: "ys = y # ys'"
    by (cases ys) auto
  from Cons.prems(3) ys obtain z zs' where zs: "zs = z # zs'"
    by (cases zs) auto
  have elem: "py_lt c a = Inr False"
    if "a \<in> set (x # xs)" "py_lt a b = Inr True" "py_lt c b = Inr False" for a b c
    using that by (rule Cons.prems(1))
  have lt: "if py_eq x y then py_lt_list xs ys' = Inr True else py_lt x y = Inr True"
    using Cons.prems(2) ys by (simp split: if_splits)
  have nlt: "if py_eq z y then py_lt_list zs' ys' = Inr False else py_lt z y = Inr False"
    using Cons.prems(3) ys zs by (simp split: if_splits)
  have tail: "py_lt_list zs' xs = Inr False"
    if "py_lt_list xs ys' = Inr True" "py_lt_list zs' ys' = Inr False"
  proof (rule Cons.IH [OF _ that])
    fix a b c assume "a \<in> set xs" "py_lt a b = Inr True" "py_lt c b = Inr False"
    then show "py_lt c a = Inr False" by (intro elem [of a b c]) simp_all
  qed
  have x_in: "x \<in> set (x # xs)" by simp
  consider (ee) "py_eq x y" "py_eq z y" | (en) "py_eq x y" "\<not> py_eq z y"
    | (ne) "\<not> py_eq x y" "py_eq z y" | (nn) "\<not> py_eq x y" "\<not> py_eq z y"
    by blast
  then have "if py_eq z x then py_lt_list zs' xs = Inr False else py_lt z x = Inr False"
  proof cases
    case ee
    then have "py_eq z x" by (meson py_eq_sym py_eq_trans)
    moreover have "py_lt_list zs' xs = Inr False" using lt nlt ee by (intro tail) simp_all
    ultimately show ?thesis by simp
  next
    case en
    then have "\<not> py_eq z x" by (meson py_eq_trans)
    moreover have "py_lt z x = py_lt z y" using en(1) by (rule py_lt_cong_right)
    moreover have "py_lt z y = Inr False" using nlt en by simp
    ultimately show ?thesis by simp
  next
    case ne
    then have "\<not> py_eq z x" by (meson py_eq_sym py_eq_trans)
    moreover have "py_lt z x = py_lt y x" using ne(2) by (rule py_lt_cong_left)
    moreover have "py_lt y x = Inr False"
    proof (rule elem [OF x_in])
      show "py_lt x y = Inr True" using lt ne by simp
      then show "py_lt y y = Inr False" by (rule py_lt_self)
    qed
    ultimately show ?thesis by simp
  next
    case nn
    have xy: "py_lt x y = Inr True" using lt nn by simp
    have zy: "py_lt z y = Inr False" using nlt nn by simp
    have "\<not> py_eq z x"
    proof
      assume "py_eq z x"
      then have "py_lt z y = py_lt x y" by (rule py_lt_cong_left)
      with xy zy show False by simp
    qed
    moreover have "py_lt z x = Inr False" using x_in xy zy by (rule elem)
    ultimately show ?thesis by simp
  qed
  then show ?case unfolding zs by simp
qed

lemma py_lt_trans:
  "py_lt x y = Inr True \<Longrightarrow> py_lt z y = Inr False \<Longrightarrow> py_lt z x = Inr False"
proof (induction x arbitrary: y z)
  case JNull then show ?case by simp
next
  case (JBool b)
  then obtain n where n: "number y = Some n" "(if b then 1 else 0) < n"
    by (auto split: option.splits)
  from py_lt_numberD [OF JBool.prems(2) n(1)] obtain k where "number z = Some k" "\<not> k < n"
    by auto
  with n show ?case by (cases z) (auto split: if_splits)
next
  case (JInt m)
  then obtain n where n: "number y = Some n" "m < n"
    by (auto split: option.splits)
  from py_lt_numberD [OF JInt.prems(2) n(1)] obtain k where "number z = Some k" "\<not> k < n"
    by auto
  with n show ?case by (cases z) (auto split: if_splits)
next
  case (JStr s)
  then obtain t where y: "y = JStr t" "s < t" by (cases y) auto
  with JStr.prems(2) obtain u where z: "z = JStr u" "\<not> u < t" by (cases z) auto
  with y show ?case by auto
next
  case (JList xs)
  then obtain ys where y: "y = JList ys" "py_lt_list xs ys = Inr True" by (cases y) auto
  with JList.prems(2) obtain zs where z: "z = JList zs" "py_lt_list zs ys = Inr False"
    by (cases z) auto
  have "py_lt_list zs xs = Inr False"
    using JList.IH y(2) z(2) by (rule py_lt_list_trans)
  then show ?case by (simp add: z)
next
  case (JDict kvs) then show ?case by simp
qed

lemma py_lt_asym: "py_lt x y = Inr True \<Longrightarrow> py_lt y x = Inr False"
  using py_lt_trans [of x y y] py_lt_self [of x y True] by simp

section \<open>Sorting\<close>

lemma mset_insert_keyed:
  "insert_keyed x ys = Inr zs \<Longrightarrow> mset zs = add_mset x (mset ys)"
  by (induction ys arbitrary: zs) (auto split: sum.splits bool.splits if_splits)

lemma sorted_insert_keyed:
  "sorted_wrt key_le ys \<Longrightarrow> insert_keyed x ys = Inr zs \<Longrightarrow> sorted_wrt key_le zs"
proof (induction ys arbitrary: zs)
  case Nil
  then show ?case by auto
next
  case (Cons y ys)
  from Cons.prems(2) obtain r where r: "py_lt (fst x) (fst y) = Inr r"
    by (cases "py_lt (fst x) (fst y)") auto
  have tail: "sorted_wrt key_le ys" and head: "\<forall>z\<in>set ys. key_le y z"
    using Cons.prems(1) by simp_all
  show ?case
  proof (cases r)
    case True
    have lt: "py_lt (fst x) (fst y) = Inr True" using r True by simp
    then have zs: "zs = x # y # ys" using Cons.prems(2) by simp
    have "key_le x z" if "z \<in> set (y # ys)" for z
    proof -
      have "py_lt (fst z) (fst y) = Inr False"
      proof (cases "z = y")
        case True
        show ?thesis unfolding True using lt by (rule py_lt_self)
      next
        case False
        then have "z \<in> set ys" using that by simp
        then have "key_le y z" using head by blast
        then show ?thesis by (simp add: key_le_def)
      qed
      with lt have "py_lt (fst z) (fst x) = Inr False" by (rule py_lt_trans)
      then show ?thesis by (simp add: key_le_def)
    qed
    then have "\<forall>z\<in>set (y # ys). key_le x z" by blast
    then show ?thesis unfolding zs using Cons.prems(1) by (simp only: sorted_wrt.simps) blast
  next
    case False
    have nlt: "py_lt (fst x) (fst y) = Inr False" using r False by simp
    then obtain zs' where zs: "zs = y # zs'" and ins: "insert_keyed x ys = Inr zs'"
      using Cons.prems(2) by (cases "insert_keyed x ys") auto
    have 1: "sorted_wrt key_le zs'" using tail ins by (rule Cons.IH)
    have "set_mset (mset zs') = set_mset (add_mset x (mset ys))"
      using mset_insert_keyed [OF ins] by simp
    then have 2: "set zs' = insert x (set ys)" by simp
    have 3: "key_le y x" using nlt by (simp add: key_le_def)
    have "\<forall>z\<in>set zs'. key_le y z" unfolding 2 using 3 head by blast
    with 1 show ?thesis unfolding zs by simp
  qed
qed

lemma sort_keyed_sorted:
  "sorted_wrt key_le done \<Longrightarrow> sort_keyed done xs = Inr zs \<Longrightarrow>
   sorted_wrt key_le zs \<and> mset zs = mset done + mset xs"
proof (induction xs arbitrary: "done")
  case Nil
  then show ?case by simp
next
  case (Cons x xs)
  from Cons.prems(2) obtain done1 where ins: "insert_keyed x done = Inr done1"
      and rest: "sort_keyed done1 xs = Inr zs"
    by (auto split: sum.splits)
  have "sorted_wrt key_le done1" using Cons.prems(1) ins by (rule sorted_insert_keyed)
  from Cons.IH [OF this rest] mset_insert_keyed [OF ins] show ?case by simp
qed

lemma map_err_Inr:
  "map_err f xs = Inr ys \<Longrightarrow> list_all2 (\<lambda>x y. f x = Inr y) xs ys"
  by (induction xs arbitrary: ys) (auto split: sum.splits)

lemma filter_err_Inr:
  "filter_err p xs = Inr ys \<Longrightarrow> ys = filter (\<lambda>x. p x = Inr True) xs"
  by (induction xs arbitrary: ys) (auto split: sum.splits if_splits)

lemma keyed_Inr:
  assumes "map_err (\<lambda>x. case key x of Inl e \<Rightarrow> Inl e | Inr k \<Rightarrow> Inr (k, x)) xs = Inr keyed"
  shows "map snd keyed = xs" and "\<And>k x. (k, x) \<in> set keyed \<Longrightarrow> key x = Inr k"
proof -
  have h: "list_all2 (\<lambda>x y. (case key x of Inl e \<Rightarrow> Inl e | Inr k \<Rightarrow> Inr (k, x)) = Inr y) xs keyed"
    using assms by (rule map_err_Inr)
  then have h': "list_all2 (\<lambda>x y. snd y = x \<and> key x = Inr (fst y)) xs keyed"
    by (rule list_all2_mono) (auto split: sum.splits)
  then show "map snd keyed = xs"
    by (induction rule: list_all2_induct) auto
  show "key x = Inr k" if "(k, x) \<in> set keyed" for k x
    using h' that by (induction rule: list_all2_induct) auto
qed

lemma sorted_py_sorted:
  assumes "sorted_py key xs = Inr out"
  shows "mset out = mset xs" and "sorted_wrt (by_key key) out"
proof -
  from assms obtain keyed s where
      k: "map_err (\<lambda>x. case key x of Inl e \<Rightarrow> Inl e | Inr k \<Rightarrow> Inr (k, x)) xs = Inr keyed"
    and s: "sort_keyed [] keyed = Inr s" and out: "out = map snd s"
    by (auto simp: sorted_py_def split: sum.splits)
  have srt: "sorted_wrt key_le s" and ms: "mset s = mset keyed"
    using sort_keyed_sorted [OF _ s] by simp_all
  have "mset (map snd s) = mset (map snd keyed)"
    using ms by (metis mset_map)
  then show "mset out = mset xs" by (simp add: out keyed_Inr(1) [OF k])
  have set_eq: "set s = set keyed" using ms by (metis set_mset_mset)
  have "sorted_wrt (\<lambda>a b. by_key key (snd a) (snd b)) s"
  proof (rule sorted_wrt_mono_rel [OF _ srt])
    fix a b assume "a \<in> set s" "b \<in> set s" "key_le a b"
    then show "by_key key (snd a) (snd b)"
      using keyed_Inr(2) [OF k, of "fst a" "snd a"] keyed_Inr(2) [OF k, of "fst b" "snd b"]
      by (auto simp: by_key_def key_le_def set_eq)
  qed
  then show "sorted_wrt (by_key key) out"
    by (simp add: out sorted_wrt_map)
qed

section \<open>Properties of get_meta_of_files\<close>

lemma get_meta_loop_pages:
  "pages_served session url w pages = Some w' \<Longrightarrow> length pages \<le> fuel \<Longrightarrow>
   get_meta_loop fuel session url result w = Some (Inr (JList (result @ concat pages)), w')"
proof (induction pages arbitrary: url w fuel result)
  case Nil
  then show ?case by simp
next
  case (Cons items rest)
  from Cons.prems(2) obtain f where fuel: "fuel = Suc f" and f: "length rest \<le> f"
    by (cases fuel) auto
  from Cons.prems(1) obtain r w1 data where
      get: "retry_get session url w = (Inr r, w1)" and body: "json_body r = Some data"
    and results: "dict_get data ''results'' = Some (JList items)"
    by (auto split: prod.splits sum.splits option.splits if_splits)
  show ?case
  proof (cases "dict_get data ''next''")
    case None
    with Cons.prems(1) get body results have "rest = []" "w' = w1"
      by (auto split: if_splits)
    with None get body results show ?thesis by (simp add: fuel)
  next
    case (Some nxt)
    show ?thesis
    proof (cases "truthy nxt")
      case True
      with Cons.prems(1) get body results Some
      have "pages_served session nxt w1 rest = Some w'" by simp
      from Cons.IH [OF this f, of "result @ items"] True get body results Some
      show ?thesis by (simp add: fuel)
    next
      case False
      with Cons.prems(1) get body results Some have "rest = []" "w' = w1"
        by (auto split: if_splits)
      with False Some get body results show ?thesis by (simp add: fuel)
    qed
  qed
qed

text \<open>
  C4. When the server serves the pages \<open>pages\<close> (each a mapping with a \<^verbatim>\<open>results\<close> field,
  linked by \<^verbatim>\<open>next\<close> until it is absent or null), the loop of \<^verbatim>\<open>get_meta_of_files\<close>, given
  fuel for that many fetches, ends with the concatenation of the pages in page order: the
  accumulated list has exactly the N items of the P pages. When a fetched body is a plain
  sequence, the loop stops at once with that sequence as the whole result.
\<close>

theorem get_meta_loop_accumulates:
  "(pages_served session url w pages = Some w' \<and> length pages \<le> fuel \<longrightarrow>
      get_meta_loop fuel session url [] w = Some (Inr (JList (concat pages)), w')
      \<and> length (concat pages) = sum_list (map length pages))
   \<and> (\<forall>r w1 xs. retry_get session url w = (Inr r, w1) \<and> json_body r = Some (JList xs) \<longrightarrow>
         get_meta_loop (Suc fuel) session url result w = Some (Inr (JList xs), w1))"
  using get_meta_loop_pages [of session url w pages w' fuel "[]"]
  by (auto simp: length_concat)

lemma retry_get_success:
  "session (requested w) (GET url) = Responds y \<Longrightarrow> \<not> raise_for_status y \<Longrightarrow>
   retry_get session url w = (Inr y, retried url 1 0 0 w)"
  unfolding retry_get_def by (rule retry_get_loop_success)

theorem get_meta_loop_accumulates_witness:
  "get_meta_loop 5 two_pages (JStr ''p1'') [] world0 =
     Some (Inr (JList [doc 3 2, doc 1 0, doc 2 3]),
           \<lparr>requested = [GET (JStr ''p1''), GET (JStr ''p2'')], logged = [], slept = [],
             events = [Sent (GET (JStr ''p1'')), Sent (GET (JStr ''p2''))]\<rparr>)
   \<and> get_meta_loop 1 (\<lambda>h rq. Responds (json_response 200 (JList [doc 1 2]))) (JStr ''u'')
        [doc 9 9] world0 =
     Some (Inr (JList [doc 1 2]), \<lparr>requested = [GET (JStr ''u'')], logged = [], slept = [],
      events = [Sent (GET (JStr ''u''))]\<rparr>)"
proof -
  let ?w2 = "\<lparr>requested = [GET (JStr ''p1''), GET (JStr ''p2'')], logged = [], slept = [],
             events = [Sent (GET (JStr ''p1'')), Sent (GET (JStr ''p2''))]\<rparr>"
  let ?w1 = "\<lparr>requested = [GET (JStr ''u'')], logged = [], slept = [],
      events = [Sent (GET (JStr ''u''))]\<rparr>"
  let ?s = "\<lambda>(h::request list) (rq::request). Responds (json_response 200 (JList [doc 1 2]))"
  have a: "pages_served two_pages (JStr ''p1'') world0 [[doc 3 2, doc 1 0], [doc 2 3]] = Some ?w2"
    by code_simp
  have b: "retry_get ?s (JStr ''u'') world0 = (Inr (json_response 200 (JList [doc 1 2])), ?w1)"
    by code_simp
  have c: "json_body (json_response 200 (JList [doc 1 2])) = Some (JList [doc 1 2])"
    by (simp add: json_response_def)
  show ?thesis
    using get_meta_loop_accumulates [where session = two_pages and url = "JStr ''p1''"
        and w = world0 and pages = "[[doc 3 2, doc 1 0], [doc 2 3]]" and w' = ?w2 and fuel = 5]
      get_meta_loop_accumulates [where session = ?s and url = "JStr ''u''" and w = world0
        and fuel = 0 and result = "[doc 9 9]"]
      a b c
    by simp
qed

lemma py_in_dataset: "py_in s [JInt 2, JInt 3] \<Longrightarrow> s = JInt 2 \<or> s = JInt 3"
  by (cases s) (auto simp: py_in_def split: if_splits)

lemma dataset_document_True:
  "dataset_document x = Inr True \<Longrightarrow>
   subscript x ''dataset_status'' = Inr (JInt 2) \<or> subscript x ''dataset_status'' = Inr (JInt 3)"
  by (auto simp: dataset_document_def split: sum.splits dest: py_in_dataset)

lemma by_key_int:
  "by_key key a b \<Longrightarrow> key a = Inr (JInt m) \<Longrightarrow> key b = Inr (JInt n) \<Longrightarrow> m \<le> n"
  by (auto simp: by_key_def)

text \<open>
  C5. Every document list that \<^verbatim>\<open>get_meta_of_files\<close> returns holds only entries whose
  \<^verbatim>\<open>dataset_status\<close> is 2 or 3, and its identifiers are non-decreasing: no later identifier is
  smaller than an earlier one (for integer identifiers, \<open>m \<le> n\<close>).
\<close>

theorem get_meta_of_files_sorted:
  assumes "get_meta_of_files fuel url session w = Some (Inr docs, w')"
  shows "(\<forall>d\<in>set docs. subscript d ''dataset_status'' = Inr (JInt 2)
                      \<or> subscript d ''dataset_status'' = Inr (JInt 3))
       \<and> sorted_wrt (by_key (\<lambda>x. subscript x ''id'')) docs
       \<and> (\<forall>i j m n. i < j \<and> j < length docs \<and> subscript (docs ! i) ''id'' = Inr (JInt m)
             \<and> subscript (docs ! j) ''id'' = Inr (JInt n) \<longrightarrow> m \<le> n)"
proof -
  from assms obtain result w1 documents sorted_documents where
      "py_iter result = Inr documents"
    and srt: "sorted_py (\<lambda>x. subscript x ''id'') documents = Inr sorted_documents"
    and flt: "filter_err dataset_document sorted_documents = Inr docs"
    by (auto simp: get_meta_of_files_def split: option.splits prod.splits sum.splits)
  have docs: "docs = filter (\<lambda>x. dataset_document x = Inr True) sorted_documents"
    using flt by (rule filter_err_Inr)
  have 1: "\<forall>d\<in>set docs. subscript d ''dataset_status'' = Inr (JInt 2)
                      \<or> subscript d ''dataset_status'' = Inr (JInt 3)"
    unfolding docs by (auto dest: dataset_document_True)
  have "sorted_wrt (by_key (\<lambda>x. subscript x ''id'')) sorted_documents"
    using srt by (rule sorted_py_sorted(2))
  then have 2: "sorted_wrt (by_key (\<lambda>x. subscript x ''id'')) docs"
    unfolding docs by (rule sorted_wrt_filter)
  have 3: "m \<le> n" if "i < j" "j < length docs" "subscript (docs ! i) ''id'' = Inr (JInt m)"
      "subscript (docs ! j) ''id'' = Inr (JInt n)" for i j m n
  proof -
    have "by_key (\<lambda>x. subscript x ''id'') (docs ! i) (docs ! j)"
      using 2 that(1,2) by (rule sorted_wrt_nth_less)
    then show ?thesis using that(3,4) by (rule by_key_int)
  qed
  from 1 2 3 show ?thesis by blast
qed

theorem get_meta_of_files_sorted_witness:
  "get_meta_of_files 5 (JStr ''p1'') two_pages world0 =
     Some (Inr [doc 2 3, doc 3 2],
           \<lparr>requested = [GET (JStr ''p1''), GET (JStr ''p2'')], logged = [], slept = [],
             events = [Sent (GET (JStr ''p1'')), Sent (GET (JStr ''p2''))]\<rparr>)
   \<and> subscript (doc 2 3) ''dataset_status'' = Inr (JInt 3)
   \<and> subscript (doc 3 2) ''dataset_status'' = Inr (JInt 2)
   \<and> sorted_wrt (by_key (\<lambda>x. subscript x ''id'')) [doc 2 3, doc 3 2]"
proof -
  let ?w2 = "\<lparr>requested = [GET (JStr ''p1''), GET (JStr ''p2'')], logged = [], slept = [],
             events = [Sent (GET (JStr ''p1'')), Sent (GET (JStr ''p2''))]\<rparr>"
  have a: "get_meta_of_files 5 (JStr ''p1'') two_pages world0 = Some (Inr [doc 2 3, doc 3 2], ?w2)"
    by code_simp
  have b: "subscript (doc 2 3) ''dataset_status'' = Inr (JInt 3)"
      "subscript (doc 3 2) ''dataset_status'' = Inr (JInt 2)"
    by (simp_all add: doc_def)
  from get_meta_of_files_sorted [OF a] a b show ?thesis by blast
qed

section \<open>Properties of the annotation lists\<close>

lemma annotation_record_JDict: "annotation_record x \<Longrightarrow> \<exists>kvs. x = JDict kvs"
  by (cases x) (auto simp: annotation_record_def)

lemma revised_or_extraction_kept:
  "annotation_record x \<Longrightarrow> revised_or_extraction x = Inr (kept x)"
  by (cases x) (auto simp: annotation_record_def revised_or_extraction_def kept_def)

lemma offset_key_record:
  "annotation_record x \<Longrightarrow>
   offset_key x = Inr (JList [JBool (start_offset x = JNull), start_offset x])"
  by (cases x) (auto simp: annotation_record_def offset_key_def start_offset_def split: option.splits)

lemma offset_key_start:
  "offset_key x = Inr k \<Longrightarrow> k = JList [JBool (start_offset x = JNull), start_offset x]"
  by (cases x) (auto simp: offset_key_def start_offset_def split: option.splits)

lemma by_offset_key_nulls_last:
  assumes "by_key offset_key a b"
  shows "nulls_last a b"
proof -
  let ?u = "start_offset a" and ?v = "start_offset b"
  from assms obtain ka kb where k: "offset_key a = Inr ka" "offset_key b = Inr kb"
      and lt: "py_lt kb ka = Inr False"
    unfolding by_key_def by blast
  have key: "py_lt (JList [JBool (?v = JNull), ?v]) (JList [JBool (?u = JNull), ?u]) = Inr False"
    using lt unfolding offset_key_start [OF k(1)] offset_key_start [OF k(2)] .
  have 1: "?v = JNull" if "?u = JNull"
  proof (rule ccontr)
    assume "?v \<noteq> JNull"
    with key that show False by simp
  qed
  have 2: "py_eq ?u ?v \<or> py_lt ?v ?u = Inr False" if "?u \<noteq> JNull" "?v \<noteq> JNull"
  proof (cases "py_eq ?v ?u")
    case True
    then show ?thesis by (blast intro: py_eq_sym)
  next
    case False
    with key that show ?thesis by simp
  qed
  from 1 2 show ?thesis unfolding nulls_last_def by blast
qed

lemma filter_err_total:
  "(\<And>x. x \<in> set xs \<Longrightarrow> p x = Inr (q x)) \<Longrightarrow> filter_err p xs = Inr (filter q xs)"
  by (induction xs) auto

lemma map_err_total:
  "(\<And>x. x \<in> set xs \<Longrightarrow> f x = Inr (g x)) \<Longrightarrow> map_err f xs = Inr (map g xs)"
  by (induction xs) auto

lemma insert_keyed_total:
  "(\<And>y. y \<in> set ys \<Longrightarrow> comparable (fst x) (fst y)) \<Longrightarrow> \<exists>zs. insert_keyed x ys = Inr zs"
proof (induction ys)
  case Nil
  show ?case by simp
next
  case (Cons y ys)
  have "comparable (fst x) (fst y)" by (rule Cons.prems) simp
  then obtain r where r: "py_lt (fst x) (fst y) = Inr r" by (auto simp: comparable_def)
  have "\<exists>zs. insert_keyed x ys = Inr zs"
  proof (rule Cons.IH)
    fix z assume "z \<in> set ys"
    then show "comparable (fst x) (fst z)" by (intro Cons.prems) simp
  qed
  then obtain zs where "insert_keyed x ys = Inr zs" ..
  with r show ?case by (cases r) simp_all
qed

lemma sort_keyed_total:
  assumes "\<And>a b. a \<in> set done \<union> set xs \<Longrightarrow> b \<in> set done \<union> set xs
             \<Longrightarrow> comparable (fst a) (fst b)"
  shows "\<exists>zs. sort_keyed done xs = Inr zs"
  using assms
proof (induction xs arbitrary: "done")
  case Nil
  show ?case by simp
next
  case (Cons x xs)
  have "\<exists>zs. insert_keyed x done = Inr zs"
  proof (rule insert_keyed_total)
    fix y assume "y \<in> set done"
    then show "comparable (fst x) (fst y)" by (intro Cons.prems) simp_all
  qed
  then obtain done1 where ins: "insert_keyed x done = Inr done1" ..
  have "set_mset (mset done1) = set_mset (add_mset x (mset done))"
    using mset_insert_keyed [OF ins] by simp
  then have set1: "set done1 = insert x (set done)" by simp
  have "\<exists>zs. sort_keyed done1 xs = Inr zs"
  proof (rule Cons.IH)
    fix a b assume "a \<in> set done1 \<union> set xs" "b \<in> set done1 \<union> set xs"
    then show "comparable (fst a) (fst b)" unfolding set1 by (intro Cons.prems) auto
  qed
  with ins show ?case by simp
qed

lemma offset_keys_comparable:
  assumes "annotation_record a" "annotation_record b"
  shows "comparable (JList [JBool (start_offset a = JNull), start_offset a])
           (JList [JBool (start_offset b = JNull), start_offset b])"
  using assms
  by (cases "start_offset a"; cases "start_offset b")
     (auto simp: annotation_record_def comparable_def)

lemma sorted_py_offsets_total:
  assumes "\<And>x. x \<in> set xs \<Longrightarrow> annotation_record x"
  shows "\<exists>out. sorted_py offset_key xs = Inr out"
proof -
  let ?g = "\<lambda>x. (JList [JBool (start_offset x = JNull), start_offset x], x)"
  have "map_err (\<lambda>x. case offset_key x of Inl e \<Rightarrow> Inl e | Inr k \<Rightarrow> Inr (k, x)) xs
        = Inr (map ?g xs)"
    by (rule map_err_total) (simp add: offset_key_record assms)
  moreover have "\<exists>zs. sort_keyed [] (map ?g xs) = Inr zs"
  proof (rule sort_keyed_total)
    fix a b assume "a \<in> set [] \<union> set (map ?g xs)" "b \<in> set [] \<union> set (map ?g xs)"
    then obtain x y where "x \<in> set xs" "a = ?g x" "y \<in> set xs" "b = ?g y" by auto
    then show "comparable (fst a) (fst b)"
      using offset_keys_comparable [of x y] assms by simp
  qed
  ultimately show ?thesis by (auto simp: sorted_py_def)
qed

text \<open>
  C6. For every fetched document whose annotations are annotation records,
  \<^verbatim>\<open>get_document_annotations\<close> returns a list: it holds exactly the annotations that are
  revised or marked correct or without a server identifier, and it is sorted by start
  offset, non-decreasing, the entries with a null offset after all the others.
\<close>

theorem get_document_annotations_sorted:
  assumes "retry_get session (url_of document_id (Some include_extractions)) w = (Inr r, w1)"
      and "json_body r = Some data"
      and "subscript data ''annotations'' = Inr (JList anns)"
      and "\<forall>x\<in>set anns. annotation_record x"
  shows "\<exists>out w'. get_document_annotations url_of document_id include_extractions session w
                    = (Inr out, w')
           \<and> mset out = mset (filter kept anns)
           \<and> sorted_wrt nulls_last out"
proof -
  have flt: "filter_err revised_or_extraction anns = Inr (filter kept anns)"
    by (rule filter_err_total) (use assms(4) in \<open>simp add: revised_or_extraction_kept\<close>)
  have "\<exists>out. sorted_py offset_key (filter kept anns) = Inr out"
    by (rule sorted_py_offsets_total) (use assms(4) in simp)
  then obtain out where out: "sorted_py offset_key (filter kept anns) = Inr out" ..
  have "sorted_wrt (by_key offset_key) out" using out by (rule sorted_py_sorted(2))
  then have srt: "sorted_wrt nulls_last out"
    by (rule sorted_wrt_mono_rel [rotated]) (rule by_offset_key_nulls_last)
  have ms: "mset out = mset (filter kept anns)" using out by (rule sorted_py_sorted(1))
  have "fst (get_document_annotations url_of document_id include_extractions session w) = Inr out"
    using assms(1-3) flt out by (simp add: get_document_annotations_def)
  with ms srt show ?thesis by (metis prod.collapse)
qed

theorem get_document_annotations_sorted_witness:
  "get_document_annotations (\<lambda>i e. JStr ''u'') 7 False
     (document [ann 1 True JNull, ann 2 True (JInt 5), ann 3 False (JInt 1), ann 0 False (JInt 2)])
     world0 =
   (Inr [ann 0 False (JInt 2), ann 2 True (JInt 5), ann 1 True JNull],
    \<lparr>requested = [GET (JStr ''u'')],
     logged = [Info [Lit ''Document with ID '', Fmt (JInt 7), Lit '' contains '', Fmt (JInt 3),
                     Lit '' annotations.'']],
     slept = [],
     events = [Sent (GET (JStr ''u'')),
               Logged (Info [Lit ''Document with ID '', Fmt (JInt 7), Lit '' contains '',
                             Fmt (JInt 3), Lit '' annotations.''])]\<rparr>)
   \<and> sorted_wrt nulls_last [ann 0 False (JInt 2), ann 2 True (JInt 5), ann 1 True JNull]"
proof -
  let ?anns = "[ann 1 True JNull, ann 2 True (JInt 5), ann 3 False (JInt 1), ann 0 False (JInt 2)]"
  let ?r = "json_response 200 (JDict [(''annotations'', JList ?anns)])"
  let ?w1 = "\<lparr>requested = [GET (JStr ''u'')], logged = [], slept = [],
      events = [Sent (GET (JStr ''u''))]\<rparr>"
  have a: "retry_get (document ?anns) (JStr ''u'') world0 = (Inr ?r, ?w1)"
    by code_simp
  have b: "json_body ?r = Some (JDict [(''annotations'', JList ?anns)])"
    by (simp add: json_response_def)
  have c: "subscript (JDict [(''annotations'', JList ?anns)]) ''annotations'' = Inr (JList ?anns)"
    by simp
  have d: "\<forall>x\<in>set ?anns. annotation_record x"
    by (simp add: annotation_record_def ann_def start_offset_def)
  have e: "get_document_annotations (\<lambda>i e. JStr ''u'') 7 False (document ?anns) world0 =
     (Inr [ann 0 False (JInt 2), ann 2 True (JInt 5), ann 1 True JNull],
      \<lparr>requested = [GET (JStr ''u'')],
       logged = [Info [Lit ''Document with ID '', Fmt (JInt 7), Lit '' contains '', Fmt (JInt 3),
                       Lit '' annotations.'']],
       slept = [],
       events = [Sent (GET (JStr ''u'')),
                 Logged (Info [Lit ''Document with ID '', Fmt (JInt 7), Lit '' contains '',
                               Fmt (JInt 3), Lit '' annotations.''])]\<rparr>)"
    by code_simp
  from get_document_annotations_sorted [where url_of = "\<lambda>i e. JStr ''u''" and document_id = 7
        and include_extractions = False, OF a b c d] e
  show ?thesis by auto
qed

lemma py_lt_not_null: "py_lt x y = Inr r \<Longrightarrow> x \<noteq> JNull \<and> y \<noteq> JNull"
  by (cases x; cases y) auto

lemma subscript_start_offset: "subscript x ''start_offset'' = Inr k \<Longrightarrow> start_offset x = k"
  by (cases x) (auto simp: start_offset_def split: option.splits)

lemma by_subscript_nulls_last:
  assumes "by_key (\<lambda>x. subscript x ''start_offset'') a b"
  shows "nulls_last a b"
proof -
  from assms obtain ka kb where k: "subscript a ''start_offset'' = Inr ka"
      "subscript b ''start_offset'' = Inr kb" and lt: "py_lt kb ka = Inr False"
    unfolding by_key_def by blast
  have a: "start_offset a = ka" and b: "start_offset b = kb"
    using k by (simp_all add: subscript_start_offset)
  from py_lt_not_null [OF lt] have "ka \<noteq> JNull" "kb \<noteq> JNull" by simp_all
  with lt show ?thesis unfolding nulls_last_def a b by simp
qed

lemma get_document_annotations_Inr:
  assumes "get_document_annotations url_of document_id include_extractions session w = (Inr out, w')"
  shows "\<exists>xs. sorted_py offset_key xs = Inr out"
  using assms
  by (auto simp: get_document_annotations_def Let_def split: prod.splits sum.splits option.splits)

lemma get_document_sections_Inr:
  assumes "get_document_sections url_of document_id session w = (Inr out, w')"
  shows "\<exists>xs. sorted_py (\<lambda>x. subscript x ''start_offset'') xs = Inr out"
  using assms
  by (auto simp: get_document_sections_def Let_def split: prod.splits sum.splits option.splits)

text \<open>
  C7. Two operations return a list of annotations, \<^verbatim>\<open>get_document_annotations\<close> and
  \<^verbatim>\<open>get_document_sections\<close>. Every list that either of them returns is ordered by ascending
  start offset, and an annotation whose start offset is missing or null stands after all
  the others.
\<close>

theorem annotation_lists_sorted:
  "(get_document_annotations url_of document_id include_extractions session w = (Inr out, w')
      \<longrightarrow> sorted_wrt nulls_last out)
   \<and> (get_document_sections url_of document_id session w = (Inr out, w')
      \<longrightarrow> sorted_wrt nulls_last out)"
proof (intro conjI impI)
  assume "get_document_annotations url_of document_id include_extractions session w = (Inr out, w')"
  then obtain xs where "sorted_py offset_key xs = Inr out"
    using get_document_annotations_Inr by blast
  then have "sorted_wrt (by_key offset_key) out" by (rule sorted_py_sorted(2))
  then show "sorted_wrt nulls_last out"
    by (rule sorted_wrt_mono_rel [rotated]) (rule by_offset_key_nulls_last)
next
  assume "get_document_sections url_of document_id session w = (Inr out, w')"
  then obtain xs where "sorted_py (\<lambda>x. subscript x ''start_offset'') xs = Inr out"
    using get_document_sections_Inr by blast
  then have "sorted_wrt (by_key (\<lambda>x. subscript x ''start_offset'')) out"
    by (rule sorted_py_sorted(2))
  then show "sorted_wrt nulls_last out"
    by (rule sorted_wrt_mono_rel [rotated]) (rule by_subscript_nulls_last)
qed

theorem annotation_lists_sorted_witness:
  "get_document_annotations (\<lambda>i e. JStr ''u'') 7 True
     (document [ann 1 True JNull, ann 2 True (JInt 5), ann 3 True (JInt 1)]) world0 =
   (Inr [ann 3 True (JInt 1), ann 2 True (JInt 5), ann 1 True JNull],
    \<lparr>requested = [GET (JStr ''u'')],
     logged = [Info [Lit ''Document with ID '', Fmt (JInt 7), Lit '' contains '', Fmt (JInt 3),
                     Lit '' annotations.'']],
     slept = [],
     events = [Sent (GET (JStr ''u'')),
               Logged (Info [Lit ''Document with ID '', Fmt (JInt 7), Lit '' contains '',
                             Fmt (JInt 3), Lit '' annotations.''])]\<rparr>)
   \<and> sorted_wrt nulls_last [ann 3 True (JInt 1), ann 2 True (JInt 5), ann 1 True JNull]
   \<and> get_document_sections (\<lambda>i e. JStr ''u'') 7
     (document [ann 2 True (JInt 5), ann 4 False (JInt 2), ann 3 True (JInt 1)]) world0 =
   (Inr [ann 3 True (JInt 1), ann 2 True (JInt 5)],
    \<lparr>requested = [GET (JStr ''u'')], logged = [], slept = [],
     events = [Sent (GET (JStr ''u''))]\<rparr>)
   \<and> sorted_wrt nulls_last [ann 3 True (JInt 1), ann 2 True (JInt 5)]"
proof -
  let ?wa = "\<lparr>requested = [GET (JStr ''u'')],
     logged = [Info [Lit ''Document with ID '', Fmt (JInt 7), Lit '' contains '', Fmt (JInt 3),
                     Lit '' annotations.'']],
     slept = [],
     events = [Sent (GET (JStr ''u'')),
               Logged (Info [Lit ''Document with ID '', Fmt (JInt 7), Lit '' contains '',
                             Fmt (JInt 3), Lit '' annotations.''])]\<rparr>"
  let ?ws = "\<lparr>requested = [GET (JStr ''u'')], logged = [], slept = [],
     events = [Sent (GET (JStr ''u''))]\<rparr>"
  have a: "get_document_annotations (\<lambda>i e. JStr ''u'') 7 True
     (document [ann 1 True JNull, ann 2 True (JInt 5), ann 3 True (JInt 1)]) world0 =
     (Inr [ann 3 True (JInt 1), ann 2 True (JInt 5), ann 1 True JNull], ?wa)"
    by code_simp
  have s: "get_document_sections (\<lambda>i e. JStr ''u'') 7
     (document [ann 2 True (JInt 5), ann 4 False (JInt 2), ann 3 True (JInt 1)]) world0 =
     (Inr [ann 3 True (JInt 1), ann 2 True (JInt 5)], ?ws)"
    by code_simp
  from annotation_lists_sorted [where url_of = "\<lambda>i e. JStr ''u''" and document_id = 7
          and include_extractions = True and w = world0 and w' = ?wa
          and session = "document [ann 1 True JNull, ann 2 True (JInt 5), ann 3 True (JInt 1)]"
          and out = "[ann 3 True (JInt 1), ann 2 True (JInt 5), ann 1 True JNull]"] a
  have 1: "sorted_wrt nulls_last [ann 3 True (JInt 1), ann 2 True (JInt 5), ann 1 True JNull]"
    by blast
  from annotation_lists_sorted [where url_of = "\<lambda>i e. JStr ''u''" and document_id = 7
          and w = world0 and w' = ?ws
          and session = "document [ann 2 True (JInt 5), ann 4 False (JInt 2), ann 3 True (JInt 1)]"
          and out = "[ann 3 True (JInt 1), ann 2 True (JInt 5)]"] s
  have 2: "sorted_wrt nulls_last [ann 3 True (JInt 1), ann 2 True (JInt 5)]"
    by blast
  from a s 1 2 show ?thesis by blast
qed

text \<open>
  \<^verbatim>\<open>get_document_sections\<close> sorts by \<^verbatim>\<open>itemgetter("start_offset")\<close>: for a document with a
  revised annotation whose start offset is null and another one it returns no list but
  raises \<open>TypeError\<close>, and \<open>KeyError\<close> when the field is missing, where
  \<^verbatim>\<open>get_document_annotations\<close> returns both annotations, the one without offset last.
\<close>

lemma get_document_sections_null_offset:
  "fst (get_document_sections (\<lambda>i e. JStr ''u'') 7
          (document [ann 1 True JNull, ann 2 True (JInt 5)]) world0) = Inl TypeError
   \<and> fst (get_document_annotations (\<lambda>i e. JStr ''u'') 7 False
          (document [ann 1 True JNull, ann 2 True (JInt 5)]) world0) =
       Inr [ann 2 True (JInt 5), ann 1 True JNull]
   \<and> fst (get_document_sections (\<lambda>i e. JStr ''u'') 7
          (document [JDict [(''id'', JInt 1), (''revised'', JBool True), (''is_correct'', JBool False)],
                     ann 2 True (JInt 5)]) world0) = Inl KeyError
   \<and> fst (get_document_annotations (\<lambda>i e. JStr ''u'') 7 False
          (document [JDict [(''id'', JInt 1), (''revised'', JBool True), (''is_correct'', JBool False)],
                     ann 2 True (JInt 5)]) world0) =
       Inr [ann 2 True (JInt 5),
            JDict [(''id'', JInt 1), (''revised'', JBool True), (''is_correct'', JBool False)]]"
  by code_simp

end
